theory Spec2Isabelle
  imports Main "HOL-Library.AList" "HOL-Library.Char_ord" "HOL-Library.List_Lexorder"
    "HOL-Library.Multiset"
begin

section \<open>The data model of \<open>aries.js\<close>\<close>

text \<open>
  The simulator keeps everything in plain JavaScript objects. An object used as a
  dictionary (\<open>txn_table\<close>, \<open>dirty_page_table\<close>, \<open>buffer_pool\<close>, \<open>disk\<close>) is an
  association list in insertion order: \<open>obj[k] = v\<close> is \<open>AList.update k v\<close> (in place
  when the key is there, at the end otherwise), \<open>delete obj[k]\<close> is \<open>AList.delete k\<close>,
  \<open>k in obj\<close> is \<open>map_of obj k \<noteq> None\<close>. (JavaScript enumerates keys that look
  like array indices first, in numeric order; the code only enumerates a table to take a
  minimum, to collect a list that it sorts, or to update every entry, so the order of
  enumeration is not observable.) A property that is \<open>undefined\<close> is \<open>None\<close>;
  \<open>aries.deep_copy\<close> (a JSON round trip) is the identity on all the values below.
  The \<open>explanation\<close> strings are narration only and are left out.

  An object is a dictionary in this sense for every key but the few names that each
  JavaScript object inherits from \<open>Object.prototype\<close>, such as \<open>constructor\<close> or
  \<open>toString\<close>: for these \<open>k in obj\<close> holds of the empty object too, and \<open>obj[k]\<close> is
  then a function shared by all objects. The model follows the code on transaction and
  page ids other than these names (\<open>object_prototype_keys\<close> and \<open>plain_ids\<close> below),
  and the properties of whole runs and of the steps that look a transaction id up in an
  empty place of a table are stated for such ids.
\<close>

datatype operation =
    Write string string string
  | Commit string
  | Flush string
  | Checkpoint

datatype txn_status = IN_PROGRESS | COMMITTED | ABORTED

record txn_table_entry =
  txn_status :: "txn_status option"
  last_lsn :: "nat option"

record dirty_page_table_entry =
  rec_lsn :: nat

record page =
  page_lsn :: int
  page_value :: "string option"

type_synonym txn_table = "(string \<times> txn_table_entry) list"
type_synonym dirty_page_table = "(string \<times> dirty_page_table_entry) list"
type_synonym page_table = "(string \<times> page) list"

text \<open>
  A value stored in a field the code never reads back with a fixed type: the two fields
  of a CLR that \<open>aries.undo\<close> fills in.
\<close>

datatype jsval = JUndefined | JNum nat | JStr string

text \<open>
  Log entries, with the constructors' arguments in the order of the JavaScript
  constructors: \<open>Update(lsn, txn_id, page_id, before, after, prev_lsn)\<close>,
  \<open>Commit(lsn, txn_id, prev_lsn)\<close>, \<open>End(lsn, txn_id, prev_lsn)\<close>,
  \<open>CLR(lsn, txn_id, page_id, after, undo_next_lsn, prev_lsn)\<close>,
  \<open>Checkpoint(lsn, dirty_page_table, txn_table)\<close>.
\<close>

datatype log_entry =
    Update nat string string "string option" string "nat option"
  | LogCommit nat string "nat option"
  | LogEnd nat "string option" nat
  | CLR nat "string option" "string option" jsval jsval "nat option"
  | LogCheckpoint nat dirty_page_table txn_table

datatype phase = NORMAL | ANALYSIS | REDO | UNDO | CRASHED

record state =
  phase :: phase
  ops :: "operation list"
  num_ops_processed :: nat
  log :: "log_entry list"
  num_flushed :: nat
  log_position :: "nat option"
  txn_table :: txn_table
  dirty_page_table :: dirty_page_table
  buffer_pool :: page_table
  disk :: page_table

text \<open>
  The run-time errors the code can end with: reading a property of \<open>undefined\<close> is a
  \<open>TypeError\<close>, and \<open>aries.deep_copy(undefined)\<close> is a \<open>SyntaxError\<close> of
  \<open>JSON.parse\<close>. \<open>console.assert\<close> only prints: it never throws and never changes
  the state, so a failed assertion leaves no trace in the model.
\<close>

datatype error = TypeError | SyntaxError

subsection \<open>Reading the fields of a log entry\<close>

text \<open>A field an entry does not have reads as \<open>undefined\<close>.\<close>

fun entry_lsn :: "log_entry \<Rightarrow> nat" where
  "entry_lsn (Update l t p b a pl) = l"
| "entry_lsn (LogCommit l t pl) = l"
| "entry_lsn (LogEnd l t pl) = l"
| "entry_lsn (CLR l t p a u pl) = l"
| "entry_lsn (LogCheckpoint l d tt) = l"

fun entry_txn_id :: "log_entry \<Rightarrow> string option" where
  "entry_txn_id (Update l t p b a pl) = Some t"
| "entry_txn_id (LogCommit l t pl) = Some t"
| "entry_txn_id (LogEnd l t pl) = t"
| "entry_txn_id (CLR l t p a u pl) = t"
| "entry_txn_id (LogCheckpoint l d tt) = None"

fun entry_page_id :: "log_entry \<Rightarrow> string option" where
  "entry_page_id (Update l t p b a pl) = Some p"
| "entry_page_id (CLR l t p a u pl) = p"
| "entry_page_id _ = None"

fun entry_before :: "log_entry \<Rightarrow> string option" where
  "entry_before (Update l t p b a pl) = b"
| "entry_before _ = None"

fun entry_prev_lsn :: "log_entry \<Rightarrow> nat option" where
  "entry_prev_lsn (Update l t p b a pl) = pl"
| "entry_prev_lsn (LogCommit l t pl) = pl"
| "entry_prev_lsn (LogEnd l t pl) = Some pl"
| "entry_prev_lsn (CLR l t p a u pl) = pl"
| "entry_prev_lsn (LogCheckpoint l d tt) = None"

fun is_update :: "log_entry \<Rightarrow> bool" where
  "is_update (Update l t p b a pl) = True"
| "is_update _ = False"

fun is_checkpoint :: "log_entry \<Rightarrow> bool" where
  "is_checkpoint (LogCheckpoint l d tt) = True"
| "is_checkpoint _ = False"

text \<open>An \<open>undefined\<close> used as a property key is the string \<open>undefined\<close>.\<close>

fun js_key :: "string option \<Rightarrow> string" where
  "js_key None = ''undefined''"
| "js_key (Some k) = k"

fun num_val :: "nat option \<Rightarrow> jsval" where
  "num_val None = JUndefined"
| "num_val (Some n) = JNum n"

fun str_val :: "string option \<Rightarrow> jsval" where
  "str_val None = JUndefined"
| "str_val (Some s) = JStr s"

subsection \<open>The initial state\<close>

text \<open>The sentinel value of a fresh page is the one-character string U+22A5, written here \<open>_|_\<close>.\<close>

definition bottom_value :: string where
  "bottom_value = ''_|_''"

definition State :: "operation list \<Rightarrow> state" where
  "State os = \<lparr>phase = NORMAL, ops = os, num_ops_processed = 0, log = [], num_flushed = 0,
     log_position = None, txn_table = [], dirty_page_table = [], buffer_pool = [], disk = []\<rparr>"

fun pages_accessed :: "operation list \<Rightarrow> string list" where
  "pages_accessed [] = []"
| "pages_accessed (Write t p v # os) = p # pages_accessed os"
| "pages_accessed (Flush p # os) = p # pages_accessed os"
| "pages_accessed (_ # os) = pages_accessed os"

definition init :: "state \<Rightarrow> operation list \<Rightarrow> state" where
  "init s os = s\<lparr>disk := fold (\<lambda>p d. AList.update p \<lparr>page_lsn = -1, page_value = Some bottom_value\<rparr> d)
                              (pages_accessed os) (disk s)\<rparr>"

section \<open>Helper functions\<close>

text \<open>
  \<open>aries.latest_checkpoint_lsn\<close>: the index of the last checkpoint entry of the log, 0 when
  there is none.
\<close>

fun latest_checkpoint_from :: "nat \<Rightarrow> nat \<Rightarrow> log_entry list \<Rightarrow> nat" where
  "latest_checkpoint_from lsn i [] = lsn"
| "latest_checkpoint_from lsn i (e # es) =
     latest_checkpoint_from (if is_checkpoint e then i else lsn) (Suc i) es"

definition latest_checkpoint_lsn :: "state \<Rightarrow> nat" where
  "latest_checkpoint_lsn s = latest_checkpoint_from 0 0 (log s)"

fun min_rec_lsn_from :: "nat option \<Rightarrow> dirty_page_table \<Rightarrow> nat option" where
  "min_rec_lsn_from m [] = m"
| "min_rec_lsn_from m ((p, e) # d) =
     min_rec_lsn_from (case m of None \<Rightarrow> Some (rec_lsn e) | Some n \<Rightarrow> Some (min n (rec_lsn e))) d"

definition min_rec_lsn :: "state \<Rightarrow> nat option" where
  "min_rec_lsn s = min_rec_lsn_from None (dirty_page_table s)"

definition pin :: "state \<Rightarrow> string \<Rightarrow> error + state" where
  "pin s page_id =
     (if map_of (buffer_pool s) page_id = None then
        (case map_of (disk s) page_id of
           None \<Rightarrow> Inl SyntaxError
         | Some pg \<Rightarrow> Inr (s\<lparr>buffer_pool := AList.update page_id pg (buffer_pool s)\<rparr>))
      else Inr s)"

definition flush :: "state \<Rightarrow> string \<Rightarrow> state" where
  "flush s page_id =
     (case map_of (buffer_pool s) page_id of
        None \<Rightarrow> s
      | Some pg \<Rightarrow> s\<lparr>disk := AList.update page_id pg (disk s),
                     buffer_pool := AList.delete page_id (buffer_pool s)\<rparr>)"

definition dirty :: "state \<Rightarrow> string \<Rightarrow> nat \<Rightarrow> state" where
  "dirty s page_id lsn =
     (if map_of (dirty_page_table s) page_id = None
      then s\<lparr>dirty_page_table := AList.update page_id \<lparr>rec_lsn = lsn\<rparr> (dirty_page_table s)\<rparr>
      else s)"

definition begin_txn :: "state \<Rightarrow> string \<Rightarrow> state" where
  "begin_txn s txn_id =
     (if map_of (txn_table s) txn_id = None
      then s\<lparr>txn_table := AList.update txn_id \<lparr>txn_status = None, last_lsn = None\<rparr> (txn_table s)\<rparr>
      else s)"

text \<open>
  \<open>aries.flush_log\<close> takes the LSN as a JavaScript number; \<open>Math.max\<close> with the count of
  flushed entries, which is never negative, is the maximum with \<open>nat (lsn + 1)\<close>.
\<close>

definition flush_log :: "state \<Rightarrow> int \<Rightarrow> state" where
  "flush_log s lsn = s\<lparr>num_flushed := max (num_flushed s) (nat (lsn + 1))\<rparr>"

definition aries_rec_lsn :: "state \<Rightarrow> string \<Rightarrow> nat option" where
  "aries_rec_lsn s page_id = map_option rec_lsn (map_of (dirty_page_table s) page_id)"

definition aries_last_lsn :: "state \<Rightarrow> string \<Rightarrow> nat option" where
  "aries_last_lsn s txn_id =
     (case map_of (txn_table s) txn_id of None \<Rightarrow> None | Some e \<Rightarrow> last_lsn e)"

definition aries_page_lsn :: "state \<Rightarrow> string \<Rightarrow> int option" where
  "aries_page_lsn s page_id = map_option page_lsn (map_of (buffer_pool s) page_id)"

text \<open>
  An assignment to a field of a table entry (\<open>state.buffer_pool[p].page_lsn = ...\<close>) is
  \<open>AList.map_entry\<close>; on a missing entry the JavaScript throws a \<open>TypeError\<close>, which
  the callers below check before they assign.
\<close>

definition set_page :: "page_table \<Rightarrow> string \<Rightarrow> int \<Rightarrow> string option \<Rightarrow> page_table" where
  "set_page t page_id l v = AList.map_entry page_id (\<lambda>pg. pg\<lparr>page_lsn := l, page_value := v\<rparr>) t"

section \<open>Forward processing\<close>

definition process_write :: "state \<Rightarrow> string \<Rightarrow> string \<Rightarrow> string \<Rightarrow> error + state" where
  "process_write s0 txn_id page_id v =
     (let lsn = length (log s0) in
      case pin s0 page_id of
        Inl e \<Rightarrow> Inl e
      | Inr s1 \<Rightarrow>
          (case map_of (buffer_pool s1) page_id of
             None \<Rightarrow> Inl TypeError
           | Some pg \<Rightarrow>
               let before = page_value pg;
                   s2 = s1\<lparr>buffer_pool := set_page (buffer_pool s1) page_id (int lsn) (Some v)\<rparr>;
                   s3 = dirty s2 page_id lsn;
                   prev_lsn = aries_last_lsn s3 txn_id;
                   s4 = begin_txn s3 txn_id;
                   s5 = s4\<lparr>txn_table := AList.map_entry txn_id
                             (\<lambda>e. e\<lparr>txn_status := Some IN_PROGRESS, last_lsn := Some lsn\<rparr>)
                             (txn_table s4)\<rparr>
               in Inr (s5\<lparr>log := log s5 @ [Update lsn txn_id page_id before v prev_lsn]\<rparr>)))"

definition process_commit :: "state \<Rightarrow> string \<Rightarrow> state" where
  "process_commit s0 txn_id =
     (let commit_lsn = length (log s0);
          end_lsn = commit_lsn + 1;
          prev_lsn = aries_last_lsn s0 txn_id;
          s1 = s0\<lparr>log := log s0 @ [LogCommit commit_lsn txn_id prev_lsn]\<rparr>;
          s2 = s1\<lparr>log := log s1 @ [LogEnd end_lsn (Some txn_id) commit_lsn]\<rparr>;
          s3 = flush_log s2 (int end_lsn)
      in s3\<lparr>txn_table := AList.delete txn_id (txn_table s3)\<rparr>)"

definition process_checkpoint :: "state \<Rightarrow> state" where
  "process_checkpoint s =
     s\<lparr>log := log s @ [LogCheckpoint (length (log s)) (dirty_page_table s) (txn_table s)]\<rparr>"

definition process_flush :: "state \<Rightarrow> string \<Rightarrow> state" where
  "process_flush s0 page_id =
     (case aries_page_lsn s0 page_id of
        None \<Rightarrow> s0
      | Some pl \<Rightarrow>
          let s1 = flush_log s0 pl;
              s2 = flush s1 page_id
          in s2\<lparr>dirty_page_table := AList.delete page_id (dirty_page_table s2)\<rparr>)"

fun process_op :: "state \<Rightarrow> operation \<Rightarrow> error + state" where
  "process_op s (Write t p v) = process_write s t p v"
| "process_op s (Commit t) = Inr (process_commit s t)"
| "process_op s Checkpoint = Inr (process_checkpoint s)"
| "process_op s (Flush p) = Inr (process_flush s p)"

fun forward_loop :: "state list \<Rightarrow> state \<Rightarrow> operation list \<Rightarrow> error + state list" where
  "forward_loop states s [] = Inr states"
| "forward_loop states s (op # os) =
     (case process_op s op of
        Inl e \<Rightarrow> Inl e
      | Inr s1 \<Rightarrow>
          let s2 = s1\<lparr>num_ops_processed := num_ops_processed s1 + 1\<rparr>
          in forward_loop (states @ [s2]) s2 os)"

definition forward_process :: "state list \<Rightarrow> operation list \<Rightarrow> error + state list" where
  "forward_process states os =
     (if states = [] then Inl SyntaxError else forward_loop states (last states) os)"

section \<open>Crash\<close>

definition crash :: "state \<Rightarrow> state" where
  "crash s = s\<lparr>phase := CRASHED, log := take (num_flushed s) (log s),
               dirty_page_table := [], txn_table := [], buffer_pool := []\<rparr>"

section \<open>Analysis\<close>

definition analysis_update :: "state \<Rightarrow> nat \<Rightarrow> string \<Rightarrow> string \<Rightarrow> state" where
  "analysis_update s0 lsn txn_id page_id =
     (let s1 = dirty s0 page_id lsn;
          s2 = begin_txn s1 txn_id
      in s2\<lparr>txn_table := AList.map_entry txn_id (\<lambda>e. e\<lparr>last_lsn := Some lsn\<rparr>) (txn_table s2)\<rparr>)"

definition analysis_commit :: "state \<Rightarrow> nat \<Rightarrow> string \<Rightarrow> state" where
  "analysis_commit s0 lsn txn_id =
     (let s1 = begin_txn s0 txn_id
      in s1\<lparr>txn_table := AList.map_entry txn_id
                (\<lambda>e. e\<lparr>txn_status := Some COMMITTED, last_lsn := Some lsn\<rparr>) (txn_table s1)\<rparr>)"

definition analysis_end :: "state \<Rightarrow> string option \<Rightarrow> state" where
  "analysis_end s txn_id = s\<lparr>txn_table := AList.delete (js_key txn_id) (txn_table s)\<rparr>"

text \<open>The body of \<open>aries.analysis_clr\<close> is a single \<open>console.assert(false, ...)\<close>.\<close>

definition analysis_clr :: "state \<Rightarrow> state" where
  "analysis_clr s = s"

definition analysis_checkpoint :: "state \<Rightarrow> dirty_page_table \<Rightarrow> txn_table \<Rightarrow> state" where
  "analysis_checkpoint s d t = s\<lparr>dirty_page_table := d, txn_table := t\<rparr>"

fun analysis_entry :: "state \<Rightarrow> log_entry \<Rightarrow> state" where
  "analysis_entry s (Update l t p b a pl) = analysis_update s l t p"
| "analysis_entry s (LogCommit l t pl) = analysis_commit s l t"
| "analysis_entry s (LogEnd l t pl) = analysis_end s t"
| "analysis_entry s (CLR l t p a u pl) = analysis_clr s"
| "analysis_entry s (LogCheckpoint l d t) = analysis_checkpoint s d t"

text \<open>
  \<open>state.log_position += 1\<close>. The loops below run only after the position was set to a
  number, so the \<open>undefined\<close> case (which would give \<open>NaN\<close>) does not arise there.
\<close>

definition incr_log_position :: "state \<Rightarrow> state" where
  "incr_log_position s = s\<lparr>log_position := map_option Suc (log_position s)\<rparr>"

text \<open>
  The \<open>for\<close> loop of \<open>aries.analysis\<close> over the entries from \<open>start_lsn\<close> on: each entry
  gives one snapshot. The loop returns the history and the working state.
\<close>

fun analysis_loop :: "state list \<Rightarrow> state \<Rightarrow> log_entry list \<Rightarrow> state list \<times> state" where
  "analysis_loop states s [] = (states, s)"
| "analysis_loop states s (e # es) =
     (let s1 = incr_log_position (analysis_entry s e)
      in analysis_loop (states @ [s1]) s1 es)"

definition mark_aborted :: "txn_table \<Rightarrow> txn_table" where
  "mark_aborted t =
     map (\<lambda>(k, e). (k, if txn_status e = Some IN_PROGRESS then e\<lparr>txn_status := Some ABORTED\<rparr> else e)) t"

definition analysis :: "state list \<Rightarrow> error + state list" where
  "analysis states =
     (if states = [] then Inl SyntaxError
      else
        let s0 = last states;
            start_lsn = latest_checkpoint_lsn s0;
            s1 = s0\<lparr>phase := ANALYSIS, log_position := Some start_lsn\<rparr>;
            (states1, s2) = analysis_loop states s1 (drop start_lsn (log s1));
            s3 = s2\<lparr>txn_table := mark_aborted (txn_table s2)\<rparr>
        in Inr (states1 @ [s3]))"

section \<open>Redo\<close>

definition redo_update :: "state \<Rightarrow> nat \<Rightarrow> string \<Rightarrow> string \<Rightarrow> error + state" where
  "redo_update s lsn page_id after =
     (case map_of (dirty_page_table s) page_id of
        None \<Rightarrow> Inr s
      | Some d \<Rightarrow>
          if rec_lsn d > lsn then Inr s
          else
            (case map_of (disk s) page_id of
               None \<Rightarrow> Inl TypeError
             | Some dp \<Rightarrow>
                 if page_lsn dp \<ge> int lsn then Inr s
                 else
                   (case pin s page_id of
                      Inl e \<Rightarrow> Inl e
                    | Inr s1 \<Rightarrow>
                        Inr (s1\<lparr>buffer_pool := set_page (buffer_pool s1) page_id (int lsn) (Some after)\<rparr>))))"

fun redo_entry :: "state \<Rightarrow> log_entry \<Rightarrow> error + state" where
  "redo_entry s (Update l t p b a pl) = redo_update s l p a"
| "redo_entry s (LogCommit l t pl) = Inr s"
| "redo_entry s (LogEnd l t pl) = Inr s"
| "redo_entry s (CLR l t p a u pl) = Inr s"
| "redo_entry s (LogCheckpoint l d t) = Inr s"

fun redo_loop :: "state list \<Rightarrow> state \<Rightarrow> log_entry list \<Rightarrow> error + state list" where
  "redo_loop states s [] = Inr states"
| "redo_loop states s (e # es) =
     (case redo_entry s e of
        Inl err \<Rightarrow> Inl err
      | Inr s1 \<Rightarrow>
          let s2 = incr_log_position s1
          in redo_loop (states @ [s2]) s2 es)"

text \<open>
  \<open>aries.redo\<close> works on a copy of the last snapshot. When the dirty page table is empty
  it returns before any \<open>states.push\<close>, so the copy, with its phase, is dropped.
\<close>

definition redo_start :: "state \<Rightarrow> state" where
  "redo_start s = s\<lparr>phase := REDO, log_position := min_rec_lsn s\<rparr>"

definition redo :: "state list \<Rightarrow> error + state list" where
  "redo states =
     (if states = [] then Inl SyntaxError
      else
        let s = redo_start (last states)
        in case min_rec_lsn (last states) of
             None \<Rightarrow> Inr states
           | Some start_lsn \<Rightarrow> redo_loop states s (drop start_lsn (log s)))"

section \<open>Undo\<close>

text \<open>
  \<open>losers.sort()\<close> is called without a comparison function: JavaScript then orders the
  elements by their string conversions, compared code unit by code unit, and puts
  \<open>undefined\<close> elements last. The string of a natural number is its decimal numeral
  (for every number below ten to the power 21, far beyond any index of a log).
\<close>

fun string_of_nat :: "nat \<Rightarrow> string" where
  "string_of_nat n =
     (if n < 10 then [char_of (48 + n)]
      else string_of_nat (n div 10) @ [char_of (48 + n mod 10)])"

declare string_of_nat.simps [simp del]

definition js_sort :: "nat option list \<Rightarrow> nat option list" where
  "js_sort xs = map Some (sort_key string_of_nat (List.map_filter id xs)) @ filter (\<lambda>x. x = None) xs"

definition log_at :: "log_entry list \<Rightarrow> nat option \<Rightarrow> log_entry option" where
  "log_at lg i = (case i of None \<Rightarrow> None | Some n \<Rightarrow> if n < length lg then Some (lg ! n) else None)"

text \<open>
  One iteration of the \<open>while\<close> loop of \<open>aries.undo\<close>, from \<open>losers.sort()\<close> to the
  snapshot it pushes: the new working state and the new loser list. The call
  \<open>new aries.Log.CLR(clr_lsn, txn_id, page_id, undo_next_lsn, after, prev_lsn)\<close> is
  written with its arguments in the order of the source.
\<close>

definition undo_iteration :: "state \<Rightarrow> nat option list \<Rightarrow> error + state \<times> nat option list" where
  "undo_iteration s0 losers0 =
     (let sorted = js_sort losers0;
          loser = last sorted;
          losers1 = butlast sorted
      in case log_at (log s0) loser of
           None \<Rightarrow> Inl TypeError
         | Some loser_entry \<Rightarrow>
             (let clr_lsn = length (log s0);
                  undo_next_lsn = entry_prev_lsn loser_entry;
                  after = entry_before loser_entry;
                  txn_id = entry_txn_id loser_entry;
                  page_id = entry_page_id loser_entry;
                  prev_lsn = aries_last_lsn s0 (js_key txn_id);
                  s1 = s0\<lparr>log := log s0 @
                         [CLR clr_lsn txn_id page_id (num_val undo_next_lsn) (str_val after) prev_lsn]\<rparr>
              in (case pin s1 (js_key page_id) of
                    Inl e \<Rightarrow> Inl e
                  | Inr s2 \<Rightarrow>
                      if map_of (buffer_pool s2) (js_key page_id) = None then Inl TypeError
                      else
                        (let s3 = s2\<lparr>buffer_pool :=
                                     set_page (buffer_pool s2) (js_key page_id) (int clr_lsn) after\<rparr>
                         in if map_of (txn_table s3) (js_key txn_id) = None then Inl TypeError
                            else
                              (let s4 = s3\<lparr>txn_table := AList.map_entry (js_key txn_id)
                                             (\<lambda>e. e\<lparr>last_lsn := Some clr_lsn\<rparr>) (txn_table s3)\<rparr>
                               in (case undo_next_lsn of
                                     Some n \<Rightarrow>
                                       Inr (Pair (s4\<lparr>log_position := Some (entry_lsn loser_entry)\<rparr>)
                                              (losers1 @ [Some n]))
                                   | None \<Rightarrow>
                                       Inr (Pair (s4\<lparr>log := log s4 @
                                                       [LogEnd (length (log s4)) txn_id clr_lsn],
                                                     txn_table := AList.delete (js_key txn_id) (txn_table s4),
                                                     log_position := Some (entry_lsn loser_entry)\<rparr>)
                                              losers1)))))))"

text \<open>
  The \<open>while (losers.length > 0)\<close> loop. It need not terminate on an arbitrary state (a
  \<open>prev_lsn\<close> chain that runs in a circle is followed forever), so not returning is the
  value \<open>None\<close>.
\<close>

partial_function (option) undo_loop :: "state list \<Rightarrow> state \<Rightarrow> nat option list \<Rightarrow> (error + state list) option" where
  "undo_loop states s losers =
     (if losers = [] then Some (Inr (states @ [s]))
      else
        (case undo_iteration s losers of
           Inl e \<Rightarrow> Some (Inl e)
         | Inr (s1, losers1) \<Rightarrow> undo_loop (states @ [s1]) s1 losers1))"

declare undo_loop.simps [code]

definition undo :: "state list \<Rightarrow> (error + state list) option" where
  "undo states =
     (if states = [] then Some (Inl SyntaxError)
      else
        let s = (last states)\<lparr>phase := UNDO\<rparr>;
            losers = map (\<lambda>(k, e). last_lsn e) (txn_table s)
        in undo_loop states s losers)"

section \<open>The simulation\<close>

definition simulate :: "operation list \<Rightarrow> (error + state list) option" where
  "simulate os =
     (let initial_state = init (State os) os;
          states = [initial_state]
      in case forward_process states os of
           Inl e \<Rightarrow> Some (Inl e)
         | Inr states1 \<Rightarrow>
             let crash_state = crash (last states1);
                 states2 = states1 @ [crash_state]
             in (case analysis states2 of
                   Inl e \<Rightarrow> Some (Inl e)
                 | Inr states3 \<Rightarrow>
                     (case redo states3 of
                        Inl e \<Rightarrow> Some (Inl e)
                      | Inr states4 \<Rightarrow> undo states4)))"

section \<open>Notions used to state the properties\<close>

text \<open>The history after each step of \<open>aries.simulate\<close>, up to the crash, Analysis and Redo.\<close>

definition run_to_crash :: "operation list \<Rightarrow> error + state list" where
  "run_to_crash os =
     (case forward_process [init (State os) os] os of
        Inl e \<Rightarrow> Inl e
      | Inr states \<Rightarrow> Inr (states @ [crash (last states)]))"

definition run_to_analysis :: "operation list \<Rightarrow> error + state list" where
  "run_to_analysis os = (case run_to_crash os of Inl e \<Rightarrow> Inl e | Inr states \<Rightarrow> analysis states)"

definition run_to_redo :: "operation list \<Rightarrow> error + state list" where
  "run_to_redo os = (case run_to_analysis os of Inl e \<Rightarrow> Inl e | Inr states \<Rightarrow> redo states)"

text \<open>The snapshots that \<open>aries.simulate\<close> returns (none when it does not return them).\<close>

definition snapshots :: "operation list \<Rightarrow> state list" where
  "snapshots os = (case simulate os of Some (Inr states) \<Rightarrow> states | _ \<Rightarrow> [])"

text \<open>
  The property names of \<open>Object.prototype\<close>, and the operation sequences none of whose
  transaction and page ids is one of them.
\<close>

definition object_prototype_keys :: "string list" where
  "object_prototype_keys =
     [''constructor'', ''hasOwnProperty'', ''isPrototypeOf'', ''propertyIsEnumerable'',
      ''toLocaleString'', ''toString'', ''valueOf'', ''__proto__'', ''__defineGetter__'',
      ''__defineSetter__'', ''__lookupGetter__'', ''__lookupSetter__'']"

fun op_ids :: "operation \<Rightarrow> string list" where
  "op_ids (Write t p v) = [t, p]"
| "op_ids (Commit t) = [t]"
| "op_ids (Flush p) = [p]"
| "op_ids Checkpoint = []"

definition plain_ids :: "operation list \<Rightarrow> bool" where
  "plain_ids os \<longleftrightarrow> list_all (\<lambda>k. k \<notin> set object_prototype_keys) (concat (map op_ids os))"

text \<open>
  The three conditions of \<open>aries.redo_update\<close> under which an update is not redone: the
  page is not in the dirty page table, its \<open>rec_lsn\<close> there is greater than the LSN, or the
  \<open>page_lsn\<close> of the page on disk is at least the LSN.
\<close>

definition redo_skip :: "state \<Rightarrow> nat \<Rightarrow> string \<Rightarrow> bool" where
  "redo_skip s lsn page_id =
     (case map_of (dirty_page_table s) page_id of
        None \<Rightarrow> True
      | Some d \<Rightarrow>
          rec_lsn d > lsn \<or>
          (case map_of (disk s) page_id of None \<Rightarrow> False | Some dp \<Rightarrow> page_lsn dp \<ge> int lsn))"

text \<open>
  The writes to the buffer pool that a Redo scan of the given entries makes under a dirty
  page table and a disk (Redo changes neither), and the working state at the end of the
  scan.
\<close>

fun redo_writes :: "dirty_page_table \<Rightarrow> page_table \<Rightarrow> log_entry list \<Rightarrow> error + (string \<times> page) list" where
  "redo_writes d dk [] = Inr []"
| "redo_writes d dk (Update l t p b a pl # es) =
     (case map_of d p of
        None \<Rightarrow> redo_writes d dk es
      | Some de \<Rightarrow>
          if rec_lsn de > l then redo_writes d dk es
          else
            (case map_of dk p of
               None \<Rightarrow> Inl TypeError
             | Some dp \<Rightarrow>
                 if page_lsn dp \<ge> int l then redo_writes d dk es
                 else map_sum (\<lambda>e. TypeError) (\<lambda>ws. (p, \<lparr>page_lsn = int l, page_value = Some a\<rparr>) # ws)
                        (redo_writes d dk es)))"
| "redo_writes d dk (_ # es) = redo_writes d dk es"

fun redo_run :: "state \<Rightarrow> log_entry list \<Rightarrow> error + state" where
  "redo_run s [] = Inr s"
| "redo_run s (e # es) =
     (case redo_entry s e of Inl err \<Rightarrow> Inl err | Inr s1 \<Rightarrow> redo_run (incr_log_position s1) es)"

definition apply_writes :: "(string \<times> page) list \<Rightarrow> page_table \<Rightarrow> page_table" where
  "apply_writes ws b = fold (\<lambda>w. AList.update (fst w) (snd w)) ws b"

subsection \<open>The updates of the losers\<close>

text \<open>
  The loser transactions are those in the transaction table when Undo starts. Their
  updates are the entries reached from the \<open>last_lsn\<close> of each of them along \<open>prev_lsn\<close>
  (a transaction id that committed and wrote again starts a new chain: the commit removes
  it from the table, so its next update has no \<open>prev_lsn\<close>). The chain from \<open>l\<close> has at
  most \<open>l + 1\<close> entries when every \<open>prev_lsn\<close> points backwards, so that many
  steps are followed.
\<close>

fun undo_chain :: "log_entry list \<Rightarrow> nat \<Rightarrow> nat \<Rightarrow> nat list" where
  "undo_chain L 0 l = []"
| "undo_chain L (Suc k) l =
     (if l < length L
      then l # (case entry_prev_lsn (L ! l) of None \<Rightarrow> [] | Some m \<Rightarrow> undo_chain L k m)
      else [])"

definition pending_lsns :: "log_entry list \<Rightarrow> nat option list \<Rightarrow> nat list" where
  "pending_lsns L losers =
     concat (map (\<lambda>x. case x of None \<Rightarrow> [] | Some l \<Rightarrow> undo_chain L (Suc l) l) losers)"

definition loser_lsns :: "state \<Rightarrow> nat list" where
  "loser_lsns s = pending_lsns (log s) (map (\<lambda>(t, e). last_lsn e) (txn_table s))"

text \<open>
  The pages that the updates in \<open>U\<close> wrote hold before-images in the buffer pool: for
  each update in \<open>U\<close> its page is there, with the before-image of an update in \<open>U\<close> of
  the same page as its value.
\<close>

definition reverted :: "log_entry list \<Rightarrow> page_table \<Rightarrow> nat set \<Rightarrow> bool" where
  "reverted L bp U \<longleftrightarrow>
     (\<forall>l \<in> U. \<exists>l' \<in> U. \<exists>pg.
        entry_page_id (L ! l') = entry_page_id (L ! l) \<and>
        map_of bp (js_key (entry_page_id (L ! l))) = Some pg \<and>
        page_value pg = entry_before (L ! l'))"

subsection \<open>Invariants of a run\<close>

text \<open>
  The facts about the log and the tables that hold along a run of \<open>aries.simulate\<close>
  and that keep recovery from failing. \<open>update_by L l t\<close>: the entry at LSN \<open>l\<close> is an
  update of transaction \<open>t\<close>. \<open>last_lsns_ok\<close>: the keys of a transaction table are
  distinct and every \<open>last_lsn\<close> in it is an update of its transaction. \<open>entry_ok\<close>: a log
  entry carries its own index as LSN, the \<open>prev_lsn\<close> of an update is an earlier update of
  the same transaction, the table stored in a checkpoint is well formed for the log
  before it, and there is no CLR. \<open>commits_closed\<close>: every Commit entry is directly
  followed by the End entry of its transaction. \<open>cut_ok\<close>: the flushed prefix does not end
  with a Commit entry. \<open>pages_on_disk\<close>: every updated page exists on disk.
  \<open>buffer_ok\<close>: the \<open>page_lsn\<close> of a page in the buffer pool is the LSN of an update.
\<close>

definition update_by :: "log_entry list \<Rightarrow> nat \<Rightarrow> string \<Rightarrow> bool" where
  "update_by L l t \<longleftrightarrow> l < length L \<and> is_update (L ! l) \<and> entry_txn_id (L ! l) = Some t"

definition last_lsns_ok :: "log_entry list \<Rightarrow> txn_table \<Rightarrow> bool" where
  "last_lsns_ok L tt \<longleftrightarrow>
     distinct (map fst tt) \<and>
     (\<forall>t e. map_of tt t = Some e \<longrightarrow> (\<exists>l. last_lsn e = Some l \<and> update_by L l t))"

fun entry_ok :: "log_entry list \<Rightarrow> log_entry \<Rightarrow> bool" where
  "entry_ok prior (Update l t p b a pl) =
     (l = length prior \<and> (\<forall>n. pl = Some n \<longrightarrow> update_by prior n t))"
| "entry_ok prior (LogCommit l t pl) = (l = length prior)"
| "entry_ok prior (LogEnd l t pl) = (l = length prior)"
| "entry_ok prior (CLR l t p a u pl) = False"
| "entry_ok prior (LogCheckpoint l d tt) = (l = length prior \<and> last_lsns_ok prior tt)"

definition log_ok :: "log_entry list \<Rightarrow> bool" where
  "log_ok L \<longleftrightarrow> (\<forall>i < length L. entry_ok (take i L) (L ! i))"

fun is_commit :: "log_entry \<Rightarrow> bool" where
  "is_commit (LogCommit l t pl) = True"
| "is_commit _ = False"

fun is_end_of :: "string \<Rightarrow> log_entry \<Rightarrow> bool" where
  "is_end_of t (LogEnd l t' pl) = (t' = Some t)"
| "is_end_of t _ = False"

definition commits_closed :: "log_entry list \<Rightarrow> bool" where
  "commits_closed L \<longleftrightarrow>
     (\<forall>i < length L. is_commit (L ! i) \<longrightarrow>
        Suc i < length L \<and> is_end_of (js_key (entry_txn_id (L ! i))) (L ! Suc i))"

definition pages_on_disk :: "log_entry list \<Rightarrow> page_table \<Rightarrow> bool" where
  "pages_on_disk L dk \<longleftrightarrow>
     (\<forall>e \<in> set L. is_update e \<longrightarrow> js_key (entry_page_id e) \<in> fst ` set dk)"

definition buffer_ok :: "log_entry list \<Rightarrow> page_table \<Rightarrow> bool" where
  "buffer_ok L bp \<longleftrightarrow>
     (\<forall>p pg. map_of bp p = Some pg \<longrightarrow> (\<exists>l. page_lsn pg = int l \<and> l < length L \<and> is_update (L ! l)))"

definition cut_ok :: "log_entry list \<Rightarrow> nat \<Rightarrow> bool" where
  "cut_ok L n \<longleftrightarrow> n \<le> length L \<and> (0 < n \<longrightarrow> \<not> is_commit (L ! (n - 1)))"

definition forward_inv :: "state \<Rightarrow> bool" where
  "forward_inv s \<longleftrightarrow>
     log_ok (log s) \<and> commits_closed (log s) \<and> last_lsns_ok (log s) (txn_table s) \<and>
     buffer_ok (log s) (buffer_pool s) \<and> cut_ok (log s) (num_flushed s) \<and>
     pages_on_disk (log s) (disk s)"

definition crashed_ok :: "state \<Rightarrow> bool" where
  "crashed_ok s \<longleftrightarrow>
     log_ok (log s) \<and> commits_closed (log s) \<and> pages_on_disk (log s) (disk s) \<and>
     txn_table s = [] \<and> dirty_page_table s = [] \<and> buffer_pool s = []"

text \<open>
  During Analysis, at scan position \<open>i\<close>: every transaction in the table has an update
  before \<open>i\<close> as its \<open>last_lsn\<close>, or its Commit entry was the one just scanned (and its
  End entry comes next). After Analysis and Redo, \<open>recover_ok\<close> holds.
\<close>

definition analysis_inv :: "log_entry list \<Rightarrow> nat \<Rightarrow> txn_table \<Rightarrow> bool" where
  "analysis_inv L i tt \<longleftrightarrow>
     distinct (map fst tt) \<and>
     (\<forall>t e. map_of tt t = Some e \<longrightarrow>
        (\<exists>l. last_lsn e = Some l \<and> update_by (take i L) l t) \<or>
        (0 < i \<and> i \<le> length L \<and> is_commit (L ! (i - 1)) \<and> entry_txn_id (L ! (i - 1)) = Some t))"

definition recover_ok :: "state \<Rightarrow> bool" where
  "recover_ok s \<longleftrightarrow>
     log_ok (log s) \<and> last_lsns_ok (log s) (txn_table s) \<and> pages_on_disk (log s) (disk s)"

text \<open>
  During Undo, for the log \<open>L\<close> that Undo started with and the set \<open>U\<close> of LSNs undone
  so far: the log still begins with \<open>L\<close>, every pending loser LSN is an update in \<open>L\<close>,
  the transactions of the pending LSNs are exactly the transactions in the table, and the
  pages written by the updates in \<open>U\<close> hold before-images. \<open>undo_measure\<close> decreases with
  every iteration.
\<close>

definition loser_txn :: "log_entry list \<Rightarrow> nat option \<Rightarrow> string" where
  "loser_txn L x = js_key (entry_txn_id (L ! the x))"

definition undo_measure :: "nat option list \<Rightarrow> nat" where
  "undo_measure losers = sum_list (map (\<lambda>x. case x of None \<Rightarrow> 0 | Some l \<Rightarrow> Suc l) losers)"

definition undo_inv :: "log_entry list \<Rightarrow> state \<Rightarrow> nat option list \<Rightarrow> nat set \<Rightarrow> bool" where
  "undo_inv L s losers U \<longleftrightarrow>
     take (length L) (log s) = L \<and> length L \<le> length (log s) \<and>
     pages_on_disk L (disk s) \<and> distinct (map fst (txn_table s)) \<and>
     (\<forall>x \<in> set losers. \<exists>l. x = Some l \<and> l < length L \<and> is_update (L ! l)) \<and>
     mset (map (loser_txn L) losers) = mset (map fst (txn_table s)) \<and>
     (\<forall>l \<in> U. l < length L \<and> is_update (L ! l)) \<and>
     reverted L (buffer_pool s) U"

section \<open>Example states and runs\<close>

text \<open>
  The state after \<open>W_1(A, a)\<close> on a fresh simulation of \<open>W_1(A, a), Flush(A)\<close>: page
  \<open>A\<close> is in the buffer pool with \<open>page_lsn = 0\<close> and nothing is flushed yet.
\<close>

definition flush_example :: state where
  "flush_example = \<lparr>phase = NORMAL, ops = [Write ''1'' ''A'' ''a'', Flush ''A''],
     num_ops_processed = 1, log = [Update 0 ''1'' ''A'' (Some bottom_value) ''a'' None],
     num_flushed = 0, log_position = None,
     txn_table = [(''1'', \<lparr>txn_status = Some IN_PROGRESS, last_lsn = Some 0\<rparr>)],
     dirty_page_table = [(''A'', \<lparr>rec_lsn = 0\<rparr>)],
     buffer_pool = [(''A'', \<lparr>page_lsn = 0, page_value = Some ''a''\<rparr>)],
     disk = [(''A'', \<lparr>page_lsn = -1, page_value = Some bottom_value\<rparr>)]\<rparr>"

text \<open>
  Three committed transactions fill LSNs 0 to 8; then transaction 1 writes page \<open>A\<close> at
  LSN 9 and transaction 2 writes it at LSN 10, and the flush of \<open>A\<close> forces the log up
  to LSN 10. Both are losers after the crash.
\<close>

definition loser_order_ops :: "operation list" where
  "loser_order_ops =
     [Write ''3'' ''B'' ''x'', Commit ''3'', Write ''4'' ''B'' ''y'', Commit ''4'',
      Write ''5'' ''B'' ''z'', Commit ''5'', Write ''1'' ''A'' ''a'', Write ''2'' ''A'' ''b'',
      Flush ''A'']"

text \<open>One loser with two updates of page \<open>A\<close>, both forced to the log by the flush.\<close>

definition clr_ops :: "operation list" where
  "clr_ops = [Write ''1'' ''A'' ''a'', Write ''1'' ''A'' ''b'', Flush ''A'']"

text \<open>A write that is never forced to the log: after the crash the log is empty.\<close>

definition no_flush_ops :: "operation list" where
  "no_flush_ops = [Write ''1'' ''A'' ''a'']"

text \<open>
  The scenario of the specification: transaction 1 commits, transaction 2 does not, no
  page is flushed.
\<close>

definition scenario_ops :: "operation list" where
  "scenario_ops = [Write ''1'' ''A'' ''a'', Write ''2'' ''B'' ''b'', Commit ''1'']"

section \<open>Properties of forward processing and of the crash\<close>

text \<open>
  Claim C4 (write-ahead logging). When \<open>Flush(P)\<close> is processed while page \<open>P\<close> is in
  the buffer pool, the number of flushed log entries afterwards is at least the page's
  \<open>page_lsn\<close> plus one, and the disk then holds the page as it was in the buffer pool.
\<close>

theorem flush_forces_log:
  assumes "map_of (buffer_pool s) p = Some pg" and "process_op s (Flush p) = Inr s'"
  shows "int (num_flushed s') \<ge> page_lsn pg + 1 \<and> map_of (disk s') p = Some pg"
  using assms
  by (auto simp: process_flush_def aries_page_lsn_def flush_log_def flush_def update_conv')

theorem flush_forces_log_witness:
  "map_of (buffer_pool flush_example) ''A'' = Some \<lparr>page_lsn = 0, page_value = Some ''a''\<rparr>
   \<and> process_op flush_example (Flush ''A'') = Inr (process_flush flush_example ''A'')
   \<and> int (num_flushed (process_flush flush_example ''A'')) \<ge> 0 + 1
   \<and> num_flushed (process_flush flush_example ''A'') = 1"
  using flush_forces_log [of flush_example "''A''" "\<lparr>page_lsn = 0, page_value = Some ''a''\<rparr>"
      "process_flush flush_example ''A''"]
  by (simp add: flush_example_def process_flush_def aries_page_lsn_def flush_log_def flush_def)



text \<open>
  Claim C7 (crash). A crash keeps exactly the first \<open>num_flushed\<close> entries of the log,
  in order, empties the transaction table, the dirty page table and the buffer pool,
  sets the phase to \<open>CRASHED\<close>, and leaves the disk and \<open>num_flushed\<close> as they were.
\<close>

theorem crash_effect:
  "log (crash s) = take (num_flushed s) (log s)
   \<and> txn_table (crash s) = [] \<and> dirty_page_table (crash s) = [] \<and> buffer_pool (crash s) = []
   \<and> phase (crash s) = CRASHED
   \<and> disk (crash s) = disk s \<and> num_flushed (crash s) = num_flushed s"
  by (simp add: crash_def)



section \<open>Properties of Redo\<close>

subsection \<open>Repeated writes to an association list\<close>

lemma apply_writes_Nil [simp]: "apply_writes [] b = b"
  by (simp add: apply_writes_def)

lemma apply_writes_Cons [simp]: "apply_writes (w # ws) b = apply_writes ws (AList.update (fst w) (snd w) b)"
  by (simp add: apply_writes_def)

lemma in_dom_rev: "w \<in> set ws \<Longrightarrow> fst w \<in> dom (map_of (rev ws))"
  by (simp add: dom_map_of_conv_image_fst)

lemma update_update_commute:
  "p \<in> fst ` set al \<Longrightarrow> q \<noteq> p \<Longrightarrow>
     AList.update q d (AList.update p c al) = AList.update p c (AList.update q d al)"
  by (induction al) auto

lemma apply_writes_overwritten:
  "p \<in> fst ` set al \<Longrightarrow> p \<in> fst ` set ws \<Longrightarrow>
     apply_writes ws (AList.update p c al) = apply_writes ws al"
proof (induction ws arbitrary: al)
  case Nil
  then show ?case by simp
next
  case (Cons w ws)
  show ?case
  proof (cases "fst w = p")
    case True
    then show ?thesis by simp
  next
    case False
    with Cons.prems have pws: "p \<in> fst ` set ws" by auto
    have "p \<in> fst ` set (AList.update (fst w) (snd w) al)"
      using Cons.prems(1) by (simp add: dom_update)
    then have "apply_writes ws (AList.update p c (AList.update (fst w) (snd w) al)) =
               apply_writes ws (AList.update (fst w) (snd w) al)"
      using pws by (rule Cons.IH)
    moreover have "AList.update (fst w) (snd w) (AList.update p c al) =
                   AList.update p c (AList.update (fst w) (snd w) al)"
      using Cons.prems(1) False by (rule update_update_commute)
    ultimately show ?thesis by simp
  qed
qed

lemma map_of_apply_writes:
  "map_of (apply_writes ws al) k =
     (case map_of (rev ws) k of None \<Rightarrow> map_of al k | Some v \<Rightarrow> Some v)"
proof (induction ws arbitrary: al)
  case Nil
  then show ?case by simp
next
  case (Cons w ws)
  obtain a b where w: "w = (a, b)" by (cases w)
  show ?case
    by (simp add: w Cons.IH update_conv' map_add_def split: option.splits)
qed

lemma apply_writes_absorbed:
  "\<forall>w \<in> set ws. map_of al (fst w) = map_of (rev ws) (fst w) \<Longrightarrow> apply_writes ws al = al"
proof (induction ws arbitrary: al)
  case Nil
  then show ?case by simp
next
  case (Cons w ws)
  have rest: "\<forall>v \<in> set ws. map_of al (fst v) = map_of (rev ws) (fst v)"
  proof
    fix v assume v: "v \<in> set ws"
    then have "map_of al (fst v) = map_of (rev (w # ws)) (fst v)"
      using Cons.prems by simp
    moreover have "fst v \<in> dom (map_of (rev ws))"
      using v by (rule in_dom_rev)
    ultimately show "map_of al (fst v) = map_of (rev ws) (fst v)"
      by (auto simp: map_add_def split: option.splits)
  qed
  show ?case
  proof (cases "fst w \<in> fst ` set ws")
    case True
    from True obtain v where v: "v \<in> set ws" and vw: "fst v = fst w"
      by auto
    from v have "fst v \<in> dom (map_of (rev ws))"
      by (rule in_dom_rev)
    moreover from rest v have "map_of al (fst v) = map_of (rev ws) (fst v)"
      by simp
    ultimately have "fst v \<in> dom (map_of al)"
      by (simp add: domIff)
    with vw have "fst w \<in> fst ` set al"
      by (simp add: dom_map_of_conv_image_fst)
    then have "apply_writes ws (AList.update (fst w) (snd w) al) = apply_writes ws al"
      using True by (rule apply_writes_overwritten)
    with rest show ?thesis by (simp add: Cons.IH)
  next
    case False
    then have "map_of (rev ws) (fst w) = None"
      by (simp add: map_of_eq_None_iff)
    then have "map_of al (fst w) = Some (snd w)"
      using Cons.prems by (simp add: map_add_def)
    then have "AList.update (fst w) (snd w) al = al"
      by (rule update_triv)
    with rest show ?thesis by (simp add: Cons.IH)
  qed
qed

lemma apply_writes_idem: "apply_writes ws (apply_writes ws al) = apply_writes ws al"
proof (rule apply_writes_absorbed, rule ballI)
  fix w assume "w \<in> set ws"
  then have "fst w \<in> dom (map_of (rev ws))"
    by (rule in_dom_rev)
  then show "map_of (apply_writes ws al) (fst w) = map_of (rev ws) (fst w)"
    by (auto simp: map_of_apply_writes split: option.splits)
qed

subsection \<open>A Redo scan as a list of writes to the buffer pool\<close>

lemma map_entry_update: "AList.map_entry k f (AList.update k v al) = AList.update k (f v) al"
  by (induction al) auto

lemma map_entry_present: "map_of al k = Some v \<Longrightarrow> AList.map_entry k f al = AList.update k (f v) al"
  by (induction al) auto

lemma page_overwrite: "(pg :: page)\<lparr>page_lsn := l, page_value := v\<rparr> = \<lparr>page_lsn = l, page_value = v\<rparr>"
  by (cases pg) simp

lemma pin_set_page:
  assumes "map_of (disk s) p = Some dp"
  shows "\<exists>s1. pin s p = Inr s1 \<and>
           s1\<lparr>buffer_pool := set_page (buffer_pool s1) p l v\<rparr> =
           s\<lparr>buffer_pool := AList.update p \<lparr>page_lsn = l, page_value = v\<rparr> (buffer_pool s)\<rparr>"
proof (cases "map_of (buffer_pool s) p")
  case None
  with assms show ?thesis
    by (simp add: pin_def set_page_def map_entry_update page_overwrite)
next
  case (Some pg)
  then show ?thesis
    by (simp add: pin_def set_page_def map_entry_present page_overwrite)
qed

lemma redo_update_cases:
  "redo_update s l p a =
     (case map_of (dirty_page_table s) p of
        None \<Rightarrow> Inr s
      | Some de \<Rightarrow>
          if rec_lsn de > l then Inr s
          else
            (case map_of (disk s) p of
               None \<Rightarrow> Inl TypeError
             | Some dp \<Rightarrow>
                 if page_lsn dp \<ge> int l then Inr s
                 else Inr (s\<lparr>buffer_pool :=
                        AList.update p \<lparr>page_lsn = int l, page_value = Some a\<rparr> (buffer_pool s)\<rparr>)))"
proof -
  have "\<And>dp. map_of (disk s) p = Some dp \<Longrightarrow>
      (case pin s p of Inl e \<Rightarrow> Inl e
       | Inr s1 \<Rightarrow> Inr (s1\<lparr>buffer_pool := set_page (buffer_pool s1) p (int l) (Some a)\<rparr>)) =
      Inr (s\<lparr>buffer_pool := AList.update p \<lparr>page_lsn = int l, page_value = Some a\<rparr> (buffer_pool s)\<rparr>)"
    using pin_set_page [of s p _ "int l" "Some a"] by fastforce
  then show ?thesis
    by (simp add: redo_update_def split: option.splits)
qed

lemma redo_run_writes:
  "redo_run s es =
     map_sum (\<lambda>e. TypeError)
       (\<lambda>ws. s\<lparr>buffer_pool := apply_writes ws (buffer_pool s),
               log_position := map_option (\<lambda>n. n + length es) (log_position s)\<rparr>)
       (redo_writes (dirty_page_table s) (disk s) es)"
proof (induction es arbitrary: s)
  case Nil
  then show ?case by (simp add: option.map_ident)
next
  case (Cons e es)
  show ?case
  proof (cases e)
    case (Update l t p b a pl)
    then show ?thesis
      by (cases "redo_writes (dirty_page_table s) (disk s) es")
         (auto simp: Cons.IH redo_update_cases incr_log_position_def option.map_comp comp_def
               split: option.splits)
  qed (simp_all add: Cons.IH incr_log_position_def option.map_comp comp_def)
qed


lemma redo_loop_run:
  "redo_loop states s es = Inr states' \<Longrightarrow>
     \<exists>snaps. states' = states @ snaps \<and> length snaps = length es \<and>
       redo_run s es = Inr (last (s # snaps))"
proof (induction es arbitrary: states s)
  case Nil
  then show ?case by simp
next
  case (Cons e es)
  from Cons.prems obtain s1 where s1: "redo_entry s e = Inr s1"
    and loop: "redo_loop (states @ [incr_log_position s1]) (incr_log_position s1) es = Inr states'"
    by (auto simp: Let_def split: sum.splits)
  from Cons.IH [OF loop] obtain snaps where
    "states' = (states @ [incr_log_position s1]) @ snaps" "length snaps = length es"
    "redo_run (incr_log_position s1) es = Inr (last (incr_log_position s1 # snaps))"
    by blast
  then have "states' = states @ (incr_log_position s1 # snaps) \<and>
      length (incr_log_position s1 # snaps) = length (e # es) \<and>
      redo_run s (e # es) = Inr (last (s # incr_log_position s1 # snaps))"
    using s1 by simp
  then show ?case by blast
qed

lemma redo_run_loop:
  "redo_run s es = Inr sf \<Longrightarrow>
     \<exists>snaps. redo_loop states s es = Inr (states @ snaps) \<and> length snaps = length es \<and>
       last (s # snaps) = sf"
proof (induction es arbitrary: states s)
  case Nil
  then show ?case by simp
next
  case (Cons e es)
  from Cons.prems obtain s1 where s1: "redo_entry s e = Inr s1"
    and run: "redo_run (incr_log_position s1) es = Inr sf"
    by (auto split: sum.splits)
  from Cons.IH [OF run, of "states @ [incr_log_position s1]"] obtain snaps where
    "redo_loop (states @ [incr_log_position s1]) (incr_log_position s1) es =
       Inr ((states @ [incr_log_position s1]) @ snaps)"
    "length snaps = length es" "last (incr_log_position s1 # snaps) = sf"
    by blast
  then have "redo_loop states s (e # es) = Inr (states @ (incr_log_position s1 # snaps)) \<and>
      length (incr_log_position s1 # snaps) = length (e # es) \<and>
      last (s # incr_log_position s1 # snaps) = sf"
    using s1 by (simp add: Let_def)
  then show ?case by blast
qed

lemma redo_skip_update: "redo_skip s l p \<Longrightarrow> redo_update s l p a = Inr s"
  by (auto simp: redo_skip_def redo_update_cases split: option.splits)

lemma redo_no_skip_update:
  "\<not> redo_skip s l p \<Longrightarrow> redo_update s l p a = Inr s' \<Longrightarrow>
     map_of (buffer_pool s') p = Some \<lparr>page_lsn = int l, page_value = Some a\<rparr>"
  by (auto simp: redo_skip_def redo_update_cases update_conv' split: option.splits if_splits)

subsection \<open>Where Redo starts\<close>

lemma Min_insert_min:
  assumes "finite S"
  shows "Min (insert (min n r) S) = Min (insert n (insert r S))"
proof (cases "S = {}")
  case True
  then show ?thesis by simp
next
  case False
  with assms show ?thesis by (simp add: min.assoc)
qed

lemma min_rec_lsn_from_Some:
  "min_rec_lsn_from (Some n) d = Some (Min (insert n (rec_lsn ` snd ` set d)))"
proof (induction d arbitrary: n)
  case Nil
  then show ?case by simp
next
  case (Cons x d)
  obtain p e where x: "x = (p, e)" by (cases x)
  have "Min (insert (min n (rec_lsn e)) (rec_lsn ` snd ` set d)) =
        Min (insert n (insert (rec_lsn e) (rec_lsn ` snd ` set d)))"
    by (rule Min_insert_min) simp
  with Cons x show ?case by simp
qed

lemma min_rec_lsn_Min:
  "dirty_page_table s \<noteq> [] \<Longrightarrow>
     min_rec_lsn s = Some (Min (rec_lsn ` snd ` set (dirty_page_table s)))"
  by (cases "dirty_page_table s") (auto simp: min_rec_lsn_def min_rec_lsn_from_Some)

text \<open>
  Claim C9, as the code has it. \<open>aries.redo\<close> sets the phase and the scan position on
  its working copy of the last snapshot. When the dirty page table is empty it returns
  at once: no entry is scanned, no snapshot is pushed and the history is left exactly as
  it was, so the working copy with its phase \<open>REDO\<close> (and its scan position, now
  \<open>undefined\<close>) is dropped. Otherwise the scan starts at the least \<open>rec_lsn\<close> of the
  dirty page table.
\<close>

theorem redo_start_of_scan:
  assumes "states \<noteq> []"
  shows "(dirty_page_table (last states) = [] \<longrightarrow>
            redo states = Inr states
            \<and> redo_start (last states) = (last states)\<lparr>phase := REDO, log_position := None\<rparr>)
       \<and> (dirty_page_table (last states) \<noteq> [] \<longrightarrow>
            redo states =
              redo_loop states (redo_start (last states))
                (drop (Min (rec_lsn ` snd ` set (dirty_page_table (last states)))) (log (last states))))"
proof (cases "dirty_page_table (last states) = []")
  case True
  with assms show ?thesis
    by (simp add: redo_def redo_start_def min_rec_lsn_def)
next
  case False
  then have "min_rec_lsn (last states) =
      Some (Min (rec_lsn ` snd ` set (dirty_page_table (last states))))"
    by (rule min_rec_lsn_Min)
  with assms False show ?thesis
    by (simp add: redo_def redo_start_def)
qed

theorem redo_start_of_scan_witness:
  "[State []] \<noteq> [] \<and> dirty_page_table (last [State []]) = [] \<and> redo [State []] = Inr [State []]
   \<and> [flush_example] \<noteq> [] \<and> dirty_page_table (last [flush_example]) \<noteq> []
   \<and> redo [flush_example] =
       redo_loop [flush_example] (redo_start flush_example) (drop 0 (log flush_example))"
  using redo_start_of_scan [of "[State []]"] redo_start_of_scan [of "[flush_example]"]
  by (simp add: State_def flush_example_def)

text \<open>
  The claim as stated fails on the run of \<open>W_1(A, a)\<close>: nothing was flushed, so Analysis
  ends with an empty dirty page table. Redo returns the history unchanged; its last
  snapshot still has the phase \<open>ANALYSIS\<close>, and the dropped working copy differs from it
  in the scan position as well as in the phase.
\<close>

theorem redo_phase_counterexample:
  "\<not> isl (run_to_analysis no_flush_ops)
   \<and> dirty_page_table (last (projr (run_to_analysis no_flush_ops))) = []
   \<and> redo (projr (run_to_analysis no_flush_ops)) = Inr (projr (run_to_analysis no_flush_ops))
   \<and> phase (last (projr (run_to_analysis no_flush_ops))) = ANALYSIS
   \<and> redo_start (last (projr (run_to_analysis no_flush_ops))) \<noteq>
       (last (projr (run_to_analysis no_flush_ops)))\<lparr>phase := REDO\<rparr>"
  by code_simp

subsection \<open>Redo twice\<close>

text \<open>
  Claim C6, as the code has it. The three skip conditions read the dirty page table, the
  disk and the log, none of which Redo changes (a redone update goes to the buffer pool),
  so a second Redo pass meets every update with the same conditions as the first and
  redoes the same updates again. It is a no-op on the state all the same: the last
  snapshot of the second pass is the last snapshot of the first.
\<close>

theorem redo_twice:
  assumes "redo states = Inr states1"
  shows "\<exists>states2. redo states1 = Inr states2 \<and> last states2 = last states1
           \<and> (\<forall>l p. redo_skip (last states1) l p = redo_skip (last states) l p)"
proof -
  from assms have ne: "states \<noteq> []"
    by (auto simp: redo_def)
  show ?thesis
  proof (cases "min_rec_lsn (last states)")
    case None
    with assms ne have "states1 = states"
      by (simp add: redo_def)
    with assms show ?thesis by simp
  next
    case (Some start)
    define s0 where "s0 = redo_start (last states)"
    define es where "es = drop start (log (last states))"
    from assms ne Some have loop: "redo_loop states s0 es = Inr states1"
      by (simp add: redo_def s0_def es_def redo_start_def)
    from redo_loop_run [OF loop] obtain snaps where
      st1: "states1 = states @ snaps" and len: "length snaps = length es"
      and run: "redo_run s0 es = Inr (last (s0 # snaps))"
      by blast
    show ?thesis
    proof (cases "es = []")
      case True
      with len st1 have "states1 = states" by simp
      with assms show ?thesis by simp
    next
      case False
      with len have snaps: "snaps \<noteq> []" by auto
      define sf where "sf = last snaps"
      from snaps st1 have last1: "last states1 = sf" and ne1: "states1 \<noteq> []"
        by (simp_all add: sf_def)
      from run snaps have run0: "redo_run s0 es = Inr sf"
        by (simp add: sf_def)
      from run0 obtain ws where
        ws: "redo_writes (dirty_page_table s0) (disk s0) es = Inr ws"
        and sf: "sf = s0\<lparr>buffer_pool := apply_writes ws (buffer_pool s0),
                 log_position := map_option (\<lambda>n. n + length es) (log_position s0)\<rparr>"
        unfolding redo_run_writes
        by (cases "redo_writes (dirty_page_table s0) (disk s0) es") auto
      have min1: "min_rec_lsn sf = Some start"
        using Some by (simp add: sf s0_def redo_start_def min_rec_lsn_def)
      have log1: "drop start (log (redo_start sf)) = es"
        by (simp add: sf s0_def redo_start_def es_def)
      have "redo_run (redo_start sf) es = Inr sf"
        unfolding redo_run_writes
        using ws Some min1
        by (simp add: sf s0_def redo_start_def apply_writes_idem)
      from redo_run_loop [OF this, of states1] obtain snaps2 where
        loop2: "redo_loop states1 (redo_start sf) es = Inr (states1 @ snaps2)"
        and len2: "length snaps2 = length es" and last2: "last (redo_start sf # snaps2) = sf"
        by blast
      from len2 False have "snaps2 \<noteq> []" by auto
      with last2 have "last (states1 @ snaps2) = last states1"
        by (simp add: last1)
      moreover have "redo states1 = Inr (states1 @ snaps2)"
        using ne1 min1 loop2 log1 by (simp add: redo_def last1)
      moreover have "dirty_page_table sf = dirty_page_table (last states)"
        and "disk sf = disk (last states)"
        by (simp_all add: sf s0_def redo_start_def)
      then have "\<forall>l p. redo_skip (last states1) l p = redo_skip (last states) l p"
        by (simp add: last1 redo_skip_def cong: option.case_cong)
      ultimately show ?thesis by blast
    qed
  qed
qed

theorem redo_twice_witness:
  "\<exists>states1. redo [flush_example] = Inr states1
     \<and> (\<exists>states2. redo states1 = Inr states2 \<and> last states2 = last states1
           \<and> (\<forall>l p. redo_skip (last states1) l p = redo_skip (last [flush_example]) l p))"
proof -
  have h: "redo [flush_example] = Inr (projr (redo [flush_example]))"
    by code_simp
  from redo_twice [OF h] h show ?thesis
    by blast
qed

text \<open>
  The claim as stated fails on the scenario \<open>W_1(A, a), W_2(B, b), Commit_1\<close>: after the
  first Redo pass the scan of a second pass starts at LSN 0 again, the entry there is
  the update of page \<open>A\<close>, and none of the three skip conditions holds for it (the page is
  in the dirty page table with \<open>rec_lsn = 0\<close> and its \<open>page_lsn\<close> on disk is still -1).
\<close>

theorem redo_twice_counterexample:
  "\<not> isl (run_to_redo scenario_ops)
   \<and> min_rec_lsn (last (projr (run_to_redo scenario_ops))) = Some 0
   \<and> log (last (projr (run_to_redo scenario_ops))) ! 0 =
       Update 0 ''1'' ''A'' (Some bottom_value) ''a'' None
   \<and> \<not> redo_skip (last (projr (run_to_redo scenario_ops))) 0 ''A''"
  by code_simp

section \<open>Undo on two runs\<close>

text \<open>
  Claim C1 at \<open>loser_order_ops\<close>. The pending loser LSNs are 9 and 10. \<open>losers.sort()\<close>
  orders them as the strings \<open>10\<close> and \<open>9\<close>, so \<open>losers.pop()\<close> takes 9: the snapshots of
  the Undo phase (the last three of the 37 that the run returns) show the entry at LSN 9
  undone first and the entry at LSN 10 after it (\<open>log_position\<close> is the LSN of the entry
  just undone; the last snapshot repeats the one before it). Page \<open>A\<close> so ends with the
  before-image of the entry at LSN 10, which is the value \<open>a\<close> that the loser update at
  LSN 9 wrote, and not with the value it had before both.
\<close>

theorem undo_order_failing_input:
  "js_sort [Some 9, Some 10] = [Some 10, Some 9]
   \<and> simulate loser_order_ops = Some (Inr (snapshots loser_order_ops))
   \<and> map phase (drop 34 (snapshots loser_order_ops)) = [UNDO, UNDO, UNDO]
   \<and> map log_position (drop 34 (snapshots loser_order_ops)) = [Some 9, Some 10, Some 10]
   \<and> UNDO \<notin> set (map phase (take 34 (snapshots loser_order_ops)))
   \<and> map_of (buffer_pool (last (snapshots loser_order_ops))) ''A'' =
        Some \<lparr>page_lsn = 13, page_value = Some ''a''\<rparr>"
  by code_simp

text \<open>
  Claim C2 at \<open>clr_ops\<close>. The call of the CLR constructor passes \<open>undo_next_lsn\<close> where
  the constructor expects \<open>after\<close> and \<open>after\<close> where it expects \<open>undo_next_lsn\<close>. The
  CLR for the update at LSN 1 (before-image \<open>a\<close>, \<open>prev_lsn\<close> 0) has the number 0 in its
  \<open>after\<close> field and the string \<open>a\<close> in its \<open>undo_next_lsn\<close> field; the CLR for the update
  at LSN 0 has \<open>undefined\<close> as \<open>after\<close> and the sentinel value as \<open>undo_next_lsn\<close>.
\<close>

theorem clr_fields_failing_input:
  "simulate clr_ops = Some (Inr (snapshots clr_ops))
   \<and> log (last (snapshots clr_ops)) =
       [Update 0 ''1'' ''A'' (Some bottom_value) ''a'' None,
        Update 1 ''1'' ''A'' (Some ''a'') ''b'' (Some 0),
        CLR 2 (Some ''1'') (Some ''A'') (JNum 0) (JStr ''a'') (Some 1),
        CLR 3 (Some ''1'') (Some ''A'') JUndefined (JStr bottom_value) (Some 2),
        LogEnd 4 (Some ''1'') 3]"
  by code_simp

section \<open>A run of the simulation never fails\<close>

subsection \<open>Forward processing keeps the log and the tables well formed\<close>

lemma update_by_append: "update_by L l t \<Longrightarrow> update_by (L @ es) l t"
  by (simp add: update_by_def nth_append)

lemma update_by_take: "update_by (take n L) l t \<Longrightarrow> update_by L l t"
  by (auto simp: update_by_def)

lemma last_lsns_ok_append: "last_lsns_ok L tt \<Longrightarrow> last_lsns_ok (L @ es) tt"
  unfolding last_lsns_ok_def by (meson update_by_append)

lemma log_ok_Nil [simp]: "log_ok []"
  by (simp add: log_ok_def)

lemma log_ok_snoc: "log_ok (L @ [e]) \<longleftrightarrow> log_ok L \<and> entry_ok L e"
  by (auto simp: log_ok_def nth_append less_Suc_eq)

lemma log_ok_snoc2:
  "log_ok (L @ [e1, e2]) \<longleftrightarrow> log_ok L \<and> entry_ok L e1 \<and> entry_ok (L @ [e1]) e2"
  using log_ok_snoc [of "L @ [e1]" e2] log_ok_snoc [of L e1] by simp

lemma log_ok_take: "log_ok L \<Longrightarrow> log_ok (take n L)"
  by (simp add: log_ok_def min_def)

lemma log_ok_nth: "log_ok L \<Longrightarrow> i < length L \<Longrightarrow> entry_ok (take i L) (L ! i)"
  by (simp add: log_ok_def)

lemma commits_closed_snoc:
  "commits_closed L \<Longrightarrow> \<not> is_commit e \<Longrightarrow> commits_closed (L @ [e])"
  by (auto simp: commits_closed_def nth_append less_Suc_eq)

lemma commits_closed_commit:
  "commits_closed L \<Longrightarrow> commits_closed (L @ [LogCommit l t pl, LogEnd l' (Some t) pl'])"
  by (auto simp: commits_closed_def nth_append less_Suc_eq)

lemma commits_closed_take:
  "commits_closed L \<Longrightarrow> cut_ok L n \<Longrightarrow> commits_closed (take n L)"
proof (unfold commits_closed_def, intro allI impI)
  fix i
  assume cc: "\<forall>i<length L. is_commit (L ! i) \<longrightarrow>
      Suc i < length L \<and> is_end_of (js_key (entry_txn_id (L ! i))) (L ! Suc i)"
    and cut: "cut_ok L n" and i: "i < length (take n L)" and c: "is_commit (take n L ! i)"
  from i have "i < n" "i < length L" by simp_all
  with c have ci: "is_commit (L ! i)" by simp
  with cc \<open>i < length L\<close> have nxt: "Suc i < length L"
    "is_end_of (js_key (entry_txn_id (L ! i))) (L ! Suc i)" by auto
  have "Suc i \<noteq> n"
  proof
    assume "Suc i = n"
    with cut ci show False by (auto simp: cut_ok_def)
  qed
  with \<open>i < n\<close> have "Suc i < n" by simp
  with nxt \<open>i < n\<close> show "Suc i < length (take n L) \<and>
      is_end_of (js_key (entry_txn_id (take n L ! i))) (take n L ! Suc i)"
    by simp
qed

lemma cut_ok_snoc: "cut_ok L n \<Longrightarrow> cut_ok (L @ es) n"
  by (auto simp: cut_ok_def nth_append)

lemma buffer_ok_append: "buffer_ok L bp \<Longrightarrow> buffer_ok (L @ es) bp"
  unfolding buffer_ok_def by (fastforce simp: nth_append)

lemma pages_on_disk_snoc:
  "pages_on_disk L dk \<Longrightarrow> (is_update e \<Longrightarrow> js_key (entry_page_id e) \<in> fst ` set dk) \<Longrightarrow>
     pages_on_disk (L @ [e]) dk"
  by (auto simp: pages_on_disk_def)

lemma pages_on_disk_snoc_iff:
  "pages_on_disk (L @ [e]) dk \<longleftrightarrow>
     pages_on_disk L dk \<and> (is_update e \<longrightarrow> js_key (entry_page_id e) \<in> fst ` set dk)"
  by (auto simp: pages_on_disk_def)

lemma pages_on_disk_mono:
  "pages_on_disk L dk \<Longrightarrow> fst ` set dk \<subseteq> fst ` set dk' \<Longrightarrow> pages_on_disk L dk'"
  by (auto simp: pages_on_disk_def)

lemma pages_on_disk_take: "pages_on_disk L dk \<Longrightarrow> pages_on_disk (take n L) dk"
  by (auto simp: pages_on_disk_def dest: in_set_takeD)

lemma last_lsns_ok_set:
  assumes "last_lsns_ok L tt" and "update_by L l t"
  shows "last_lsns_ok L (AList.map_entry t (\<lambda>e. e\<lparr>txn_status := st, last_lsn := Some l\<rparr>)
           (AList.update t e0 tt))"
    and "map_of tt t = Some e1 \<Longrightarrow>
           last_lsns_ok L (AList.map_entry t (\<lambda>e. e\<lparr>txn_status := st, last_lsn := Some l\<rparr>) tt)"
  using assms
  by (auto simp: last_lsns_ok_def distinct_map_entry distinct_update map_of_map_entry update_conv'
      split: option.splits if_splits)

lemma last_lsns_ok_delete: "last_lsns_ok L tt \<Longrightarrow> last_lsns_ok L (AList.delete t tt)"
  by (auto simp: last_lsns_ok_def distinct_delete delete_conv' split: if_splits)

lemma last_lsns_ok_lookup:
  assumes "last_lsns_ok L tt"
    and "(case map_of tt t of None \<Rightarrow> None | Some e \<Rightarrow> last_lsn e) = Some m"
  shows "update_by L m t"
proof (cases "map_of tt t")
  case None
  with assms(2) show ?thesis by simp
next
  case (Some e)
  with assms(1) obtain l where "last_lsn e = Some l" "update_by L l t"
    unfolding last_lsns_ok_def by blast
  with assms(2) Some show ?thesis by simp
qed

lemma process_write_inv:
  assumes "forward_inv s" and "p \<in> fst ` set (disk s)"
  shows "\<exists>s'. process_write s t p v = Inr s' \<and> forward_inv s' \<and> fst ` set (disk s') = fst ` set (disk s)"
proof -
  define n where "n = length (log s)"
  from assms(2) obtain dp where dp: "map_of (disk s) p = Some dp"
    by (metis domD dom_map_of_conv_image_fst)
  obtain s1 where s1: "pin s p = Inr s1" and s1_eq: "s1 = s \<or> s1 = s\<lparr>buffer_pool := AList.update p dp (buffer_pool s)\<rparr>"
    and inbuf: "map_of (buffer_pool s1) p \<noteq> None"
    using dp by (cases "map_of (buffer_pool s) p") (auto simp: pin_def update_conv')
  from inbuf obtain pg where pg: "map_of (buffer_pool s1) p = Some pg" by auto
  define tt where "tt = AList.map_entry t (\<lambda>e. e\<lparr>txn_status := Some IN_PROGRESS, last_lsn := Some n\<rparr>)
      (txn_table (begin_txn (dirty (s1\<lparr>buffer_pool := set_page (buffer_pool s1) p (int n) (Some v)\<rparr>) p n) t))"
  define e where "e = Update n t p (page_value pg) v (aries_last_lsn s t)"
  define s' where "s' = (dirty (s1\<lparr>buffer_pool := set_page (buffer_pool s1) p (int n) (Some v)\<rparr>) p n)
      \<lparr>txn_table := tt, log := log s @ [e]\<rparr>"
  have same: "log s1 = log s" "txn_table s1 = txn_table s" "disk s1 = disk s" "num_flushed s1 = num_flushed s"
    using s1_eq by auto
  have res: "process_write s t p v = Inr s'"
    using s1 pg same
    by (simp add: process_write_def Let_def s'_def tt_def e_def n_def dirty_def begin_txn_def
        aries_last_lsn_def)
  from assms(1) have inv: "log_ok (log s)" "commits_closed (log s)" "last_lsns_ok (log s) (txn_table s)"
    "buffer_ok (log s) (buffer_pool s)" "cut_ok (log s) (num_flushed s)" "pages_on_disk (log s) (disk s)"
    by (simp_all add: forward_inv_def)
  have logs: "log s' = log s @ [e]" and disks: "disk s' = disk s" and nf: "num_flushed s' = num_flushed s"
    using same by (simp_all add: s'_def dirty_def)
  have tts: "txn_table s' = tt" by (simp add: s'_def)
  have ub: "update_by (log s @ [e]) n t"
    by (simp add: update_by_def e_def n_def)
  have eok: "entry_ok (log s) e"
    using last_lsns_ok_lookup [OF inv(3), of t] by (simp add: e_def n_def aries_last_lsn_def)
  have "log_ok (log s')"
    using inv(1) eok by (simp add: logs log_ok_snoc)
  moreover have "commits_closed (log s')"
    using inv(2) by (simp add: logs commits_closed_snoc e_def)
  moreover have "last_lsns_ok (log s') (txn_table s')"
  proof -
    have ok: "last_lsns_ok (log s @ [e]) (txn_table s)"
      using inv(3) by (rule last_lsns_ok_append)
    show ?thesis
    proof (cases "map_of (txn_table s) t")
      case None
      then show ?thesis
        using last_lsns_ok_set(1) [OF ok ub] same
        by (simp add: tts logs tt_def begin_txn_def dirty_def)
    next
      case (Some e1)
      then show ?thesis
        using last_lsns_ok_set(2) [OF ok ub] same
        by (simp add: tts logs tt_def begin_txn_def dirty_def)
    qed
  qed
  moreover have "buffer_ok (log s') (buffer_pool s')"
  proof -
    have b1: "buffer_ok (log s @ [e]) (buffer_pool s)"
      using inv(4) by (rule buffer_ok_append)
    have bp: "buffer_pool s' = AList.map_entry p (\<lambda>pg. pg\<lparr>page_lsn := int n, page_value := Some v\<rparr>) (buffer_pool s1)"
      by (simp add: s'_def dirty_def set_page_def)
    have other: "\<And>q pg'. map_of (buffer_pool s1) q = Some pg' \<Longrightarrow> q \<noteq> p \<Longrightarrow>
        map_of (buffer_pool s) q = Some pg'"
      using s1_eq by (auto simp: update_conv')
    show ?thesis
      unfolding buffer_ok_def
    proof (intro allI impI)
      fix q pg'
      assume q: "map_of (buffer_pool s') q = Some pg'"
      show "\<exists>l. page_lsn pg' = int l \<and> l < length (log s') \<and> is_update (log s' ! l)"
      proof (cases "q = p")
        case True
        with q pg have "page_lsn pg' = int n"
          by (auto simp: bp map_of_map_entry)
        moreover have "n < length (log s')" "is_update (log s' ! n)"
          by (simp_all add: logs n_def e_def)
        ultimately show ?thesis by blast
      next
        case False
        with q have "map_of (buffer_pool s1) q = Some pg'"
          by (simp add: bp map_of_map_entry)
        then have "map_of (buffer_pool s) q = Some pg'"
          using False by (rule other)
        with b1 show ?thesis
          by (simp add: buffer_ok_def logs)
      qed
    qed
  qed
  moreover have "cut_ok (log s') (num_flushed s')"
    using inv(5) by (simp add: logs nf cut_ok_snoc)
  moreover have "pages_on_disk (log s') (disk s')"
    using inv(6) assms(2) by (simp add: logs disks pages_on_disk_snoc e_def)
  ultimately have "forward_inv s'"
    by (simp add: forward_inv_def)
  with res disks show ?thesis by auto
qed

lemma process_commit_inv:
  assumes "forward_inv s"
  shows "forward_inv (process_commit s t) \<and> disk (process_commit s t) = disk s"
proof -
  define n where "n = length (log s)"
  define s' where "s' = process_commit s t"
  from assms have inv: "log_ok (log s)" "commits_closed (log s)" "last_lsns_ok (log s) (txn_table s)"
    "buffer_ok (log s) (buffer_pool s)" "cut_ok (log s) (num_flushed s)" "pages_on_disk (log s) (disk s)"
    by (simp_all add: forward_inv_def)
  have logs: "log s' = (log s @ [LogCommit n t (aries_last_lsn s t)]) @ [LogEnd (Suc n) (Some t) n]"
    and logs2: "log s' = log s @ [LogCommit n t (aries_last_lsn s t), LogEnd (Suc n) (Some t) n]"
    and tts: "txn_table s' = AList.delete t (txn_table s)"
    and nf: "num_flushed s' = max (num_flushed s) (n + 2)"
    and bps: "buffer_pool s' = buffer_pool s" and disks: "disk s' = disk s"
    by (simp_all add: s'_def process_commit_def Let_def flush_log_def n_def nat_add_distrib)
  have "log_ok (log s')"
    unfolding logs2 using inv(1) by (simp add: log_ok_snoc2 n_def)
  moreover have "commits_closed (log s')"
    unfolding logs2 using inv(2) by (rule commits_closed_commit)
  moreover have "last_lsns_ok (log s') (txn_table s')"
    unfolding logs2 tts using inv(3) by (intro last_lsns_ok_append last_lsns_ok_delete)
  moreover have "buffer_ok (log s') (buffer_pool s')"
    unfolding logs2 bps using inv(4) by (rule buffer_ok_append)
  moreover have "cut_ok (log s') (num_flushed s')"
  proof (cases "num_flushed s \<le> n + 2")
    case True
    then have "num_flushed s' = n + 2" by (simp add: nf)
    then show ?thesis
      by (simp add: cut_ok_def logs2 n_def nth_append)
  next
    case False
    with inv(5) show ?thesis
      by (simp add: cut_ok_def n_def)
  qed
  moreover have "pages_on_disk (log s') (disk s')"
    unfolding logs2 disks using inv(6) by (simp add: pages_on_disk_def)
  ultimately have "forward_inv s' \<and> disk s' = disk s"
    using disks by (simp add: forward_inv_def)
  then show ?thesis
    by (simp add: s'_def)
qed

lemma process_checkpoint_inv:
  assumes "forward_inv s"
  shows "forward_inv (process_checkpoint s) \<and> disk (process_checkpoint s) = disk s"
  using assms
  by (simp add: forward_inv_def process_checkpoint_def log_ok_snoc commits_closed_snoc
      last_lsns_ok_append buffer_ok_append cut_ok_snoc pages_on_disk_snoc_iff)

lemma buffer_ok_delete: "buffer_ok L bp \<Longrightarrow> buffer_ok L (AList.delete p bp)"
  by (auto simp: buffer_ok_def delete_conv' split: if_splits)

lemma process_flush_inv:
  assumes "forward_inv s"
  shows "forward_inv (process_flush s p) \<and> fst ` set (disk s) \<subseteq> fst ` set (disk (process_flush s p))"
proof (cases "map_of (buffer_pool s) p")
  case None
  with assms show ?thesis
    by (simp add: process_flush_def aries_page_lsn_def)
next
  case (Some pg)
  from assms have inv: "log_ok (log s)" "commits_closed (log s)" "last_lsns_ok (log s) (txn_table s)"
    "buffer_ok (log s) (buffer_pool s)" "cut_ok (log s) (num_flushed s)" "pages_on_disk (log s) (disk s)"
    by (simp_all add: forward_inv_def)
  from inv(4) Some obtain l where l: "page_lsn pg = int l" "l < length (log s)" "is_update (log s ! l)"
    by (auto simp: buffer_ok_def)
  define s' where "s' = process_flush s p"
  have logs: "log s' = log s" and tts: "txn_table s' = txn_table s"
    and nf: "num_flushed s' = max (num_flushed s) (Suc l)"
    and bps: "buffer_pool s' = AList.delete p (buffer_pool s)"
    and disks: "disk s' = AList.update p pg (disk s)"
    using Some l(1)
    by (simp_all add: s'_def process_flush_def aries_page_lsn_def flush_log_def flush_def nat_add_distrib)
  have "cut_ok (log s') (num_flushed s')"
  proof (cases "num_flushed s \<le> Suc l")
    case True
    then have "num_flushed s' = Suc l" by (simp add: nf)
    moreover have "\<not> is_commit (log s ! l)"
      using l(3) by (cases "log s ! l") simp_all
    ultimately show ?thesis
      using l(2) by (simp add: cut_ok_def logs)
  next
    case False
    with inv(5) show ?thesis
      by (simp add: logs nf max_def)
  qed
  moreover have sub: "fst ` set (disk s) \<subseteq> fst ` set (disk s')"
    by (auto simp: disks dom_update)
  moreover have "pages_on_disk (log s') (disk s')"
    unfolding logs using inv(6) sub by (rule pages_on_disk_mono)
  moreover have "buffer_ok (log s') (buffer_pool s')"
    unfolding logs bps using inv(4) by (rule buffer_ok_delete)
  ultimately have "forward_inv s' \<and> fst ` set (disk s) \<subseteq> fst ` set (disk s')"
    using inv by (simp add: forward_inv_def logs tts)
  then show ?thesis
    by (simp add: s'_def)
qed

lemma process_op_inv:
  assumes "forward_inv s" and "set (pages_accessed (op # os)) \<subseteq> fst ` set (disk s)"
  shows "\<exists>s'. process_op s op = Inr s' \<and> forward_inv s' \<and>
           set (pages_accessed os) \<subseteq> fst ` set (disk s')"
proof (cases op)
  case (Write t p v)
  with assms(2) have "p \<in> fst ` set (disk s)" by simp
  from process_write_inv [OF assms(1) this, of t v] Write assms(2) show ?thesis
    by auto
next
  case (Commit t)
  with process_commit_inv [OF assms(1), of t] assms(2) show ?thesis by simp
next
  case (Flush p)
  with process_flush_inv [OF assms(1), of p] assms(2) show ?thesis by auto
next
  case Checkpoint
  with process_checkpoint_inv [OF assms(1)] assms(2) show ?thesis by simp
qed

lemma forward_inv_num_ops: "forward_inv (s\<lparr>num_ops_processed := n\<rparr>) = forward_inv s"
  by (simp add: forward_inv_def)

lemma forward_loop_inv:
  assumes "forward_inv s" and "set (pages_accessed os) \<subseteq> fst ` set (disk s)"
    and "states \<noteq> []" and "last states = s"
  shows "\<exists>states'. forward_loop states s os = Inr states' \<and> states' \<noteq> [] \<and>
           forward_inv (last states')"
  using assms
proof (induction os arbitrary: states s)
  case Nil
  then show ?case by simp
next
  case (Cons op os)
  from process_op_inv [OF Cons.prems(1,2)] obtain s1 where
    s1: "process_op s op = Inr s1" "forward_inv s1" "set (pages_accessed os) \<subseteq> fst ` set (disk s1)"
    by blast
  define s2 where "s2 = s1\<lparr>num_ops_processed := num_ops_processed s1 + 1\<rparr>"
  have "forward_inv s2" "set (pages_accessed os) \<subseteq> fst ` set (disk s2)"
    using s1 by (simp_all add: s2_def forward_inv_num_ops)
  from Cons.IH [OF this, of "states @ [s2]"] obtain states' where
    "forward_loop (states @ [s2]) s2 os = Inr states'" "states' \<noteq> []" "forward_inv (last states')"
    by auto
  with s1(1) show ?case
    by (simp add: s2_def Let_def)
qed

lemma fold_update_keys_mono:
  "fst ` set d \<subseteq> fst ` set (fold (\<lambda>p d. AList.update p v d) ps d)"
proof (induction ps arbitrary: d)
  case Nil
  then show ?case by simp
next
  case (Cons p ps)
  have "fst ` set d \<subseteq> fst ` set (AList.update p v d)"
    by (auto simp: dom_update)
  also have "\<dots> \<subseteq> fst ` set (fold (\<lambda>p d. AList.update p v d) ps (AList.update p v d))"
    by (rule Cons.IH)
  finally show ?case by simp
qed

lemma init_disk_keys: "set ps \<subseteq> fst ` set (fold (\<lambda>p d. AList.update p v d) ps d0)"
proof (induction ps arbitrary: d0)
  case Nil
  then show ?case by simp
next
  case (Cons p ps)
  have "p \<in> fst ` set (AList.update p v d0)" by (simp add: dom_update)
  with fold_update_keys_mono [of "AList.update p v d0" v ps] Cons.IH [of "AList.update p v d0"]
  show ?case by auto
qed

lemma init_inv:
  "forward_inv (init (State os) os) \<and> set (pages_accessed os) \<subseteq> fst ` set (disk (init (State os) os))"
  by (simp add: forward_inv_def init_def State_def commits_closed_def last_lsns_ok_def
      buffer_ok_def cut_ok_def pages_on_disk_def init_disk_keys)

lemma crash_inv: "forward_inv s \<Longrightarrow> crashed_ok (crash s)"
  by (simp add: forward_inv_def crashed_ok_def crash_def log_ok_take commits_closed_take
      pages_on_disk_take)

lemma run_to_crash_ok:
  "\<exists>states. run_to_crash os = Inr states \<and> states \<noteq> [] \<and> crashed_ok (last states)"
proof -
  from init_inv [of os] forward_loop_inv [of "init (State os) os" os "[init (State os) os]"]
  obtain states' where "forward_loop [init (State os) os] (init (State os) os) os = Inr states'"
    "states' \<noteq> []" "forward_inv (last states')"
    by auto
  then show ?thesis
    by (simp add: run_to_crash_def forward_process_def crash_inv)
qed

subsection \<open>Analysis rebuilds a well-formed transaction table\<close>

lemma update_by_take_mono: "update_by (take i L) l t \<Longrightarrow> i \<le> j \<Longrightarrow> update_by (take j L) l t"
  by (auto simp: update_by_def)

lemma analysis_inv_settled:
  assumes "analysis_inv L i tt" and "commits_closed L" and "i < length L"
    and "\<And>t. \<not> is_end_of t (L ! i)"
    and "map_of tt t = Some e"
  shows "\<exists>l. last_lsn e = Some l \<and> update_by (take i L) l t"
proof -
  from assms(1,5) consider
    (good) "\<exists>l. last_lsn e = Some l \<and> update_by (take i L) l t"
    | (pending) "0 < i" "is_commit (L ! (i - 1))"
    unfolding analysis_inv_def by blast
  then show ?thesis
  proof cases
    case good
    then show ?thesis .
  next
    case pending
    with assms(2,3) have "is_end_of (js_key (entry_txn_id (L ! (i - 1)))) (L ! i)"
      by (auto simp: commits_closed_def dest!: spec [of _ "i - 1"])
    with assms(4) show ?thesis by blast
  qed
qed

lemma analysis_inv_goodI:
  assumes "distinct (map fst tt)"
    and "\<And>t e. map_of tt t = Some e \<Longrightarrow> \<exists>l. last_lsn e = Some l \<and> update_by (take j L) l t"
  shows "analysis_inv L j tt"
  using assms unfolding analysis_inv_def by blast

lemma analysis_update_inv:
  assumes inv: "analysis_inv L i (txn_table s)" and cc: "commits_closed L" and i: "i < length L"
    and e: "L ! i = Update i t p b a pl"
  shows "analysis_inv L (Suc i) (txn_table (analysis_update s i t p))"
proof -
  have ne: "\<And>t'. \<not> is_end_of t' (L ! i)" by (simp add: e)
  have settled: "\<And>t' e'. map_of (txn_table s) t' = Some e' \<Longrightarrow>
      \<exists>l. last_lsn e' = Some l \<and> update_by (take (Suc i) L) l t'"
    using analysis_inv_settled [OF inv cc i ne] update_by_take_mono [of i L _ _ "Suc i"]
    by fastforce
  have here: "update_by (take (Suc i) L) i t"
    using i e by (simp add: update_by_def)
  have d: "distinct (map fst (txn_table s))"
    using inv by (simp add: analysis_inv_def)
  have tt: "txn_table (analysis_update s i t p) =
      AList.map_entry t (\<lambda>e. e\<lparr>last_lsn := Some i\<rparr>)
        (if map_of (txn_table s) t = None
         then AList.update t \<lparr>txn_status = None, last_lsn = None\<rparr> (txn_table s)
         else txn_table s)"
    by (cases "map_of (txn_table s) t"; cases "map_of (dirty_page_table s) p")
       (simp_all add: analysis_update_def Let_def begin_txn_def dirty_def)
  show ?thesis
  proof (rule analysis_inv_goodI)
    show "distinct (map fst (txn_table (analysis_update s i t p)))"
      using d by (simp add: tt distinct_map_entry distinct_update)
  next
    fix t' e'
    assume "map_of (txn_table (analysis_update s i t p)) t' = Some e'"
    then show "\<exists>l. last_lsn e' = Some l \<and> update_by (take (Suc i) L) l t'"
      using settled [of t'] here
      by (auto simp: tt map_of_map_entry update_conv' split: if_splits option.splits)
  qed
qed

lemma analysis_commit_inv:
  assumes inv: "analysis_inv L i (txn_table s)" and cc: "commits_closed L" and i: "i < length L"
    and e: "L ! i = LogCommit i t pl"
  shows "analysis_inv L (Suc i) (txn_table (analysis_commit s i t))"
proof -
  have ne: "\<And>t'. \<not> is_end_of t' (L ! i)" by (simp add: e)
  have settled: "\<And>t' e'. map_of (txn_table s) t' = Some e' \<Longrightarrow>
      \<exists>l. last_lsn e' = Some l \<and> update_by (take (Suc i) L) l t'"
    using analysis_inv_settled [OF inv cc i ne] update_by_take_mono [of i L _ _ "Suc i"]
    by fastforce
  have d: "distinct (map fst (txn_table s))"
    using inv by (simp add: analysis_inv_def)
  have tt: "txn_table (analysis_commit s i t) =
      AList.map_entry t (\<lambda>e. e\<lparr>txn_status := Some COMMITTED, last_lsn := Some i\<rparr>)
        (if map_of (txn_table s) t = None
         then AList.update t \<lparr>txn_status = None, last_lsn = None\<rparr> (txn_table s)
         else txn_table s)"
    by (cases "map_of (txn_table s) t") (simp_all add: analysis_commit_def Let_def begin_txn_def)
  show ?thesis
    unfolding analysis_inv_def
  proof (intro conjI allI impI)
    show "distinct (map fst (txn_table (analysis_commit s i t)))"
      using d by (simp add: tt distinct_map_entry distinct_update)
  next
    fix t' e'
    assume m: "map_of (txn_table (analysis_commit s i t)) t' = Some e'"
    show "(\<exists>l. last_lsn e' = Some l \<and> update_by (take (Suc i) L) l t') \<or>
          (0 < Suc i \<and> Suc i \<le> length L \<and> is_commit (L ! (Suc i - 1)) \<and>
           entry_txn_id (L ! (Suc i - 1)) = Some t')"
    proof (cases "t' = t")
      case True
      with i e show ?thesis by simp
    next
      case False
      with m have "map_of (txn_table s) t' = Some e'"
        by (auto simp: tt map_of_map_entry update_conv' split: if_splits)
      from settled [OF this] show ?thesis by blast
    qed
  qed
qed

lemma analysis_end_inv:
  assumes inv: "analysis_inv L i (txn_table s)" and cc: "commits_closed L" and i: "i < length L"
    and e: "L ! i = LogEnd i t pl"
  shows "analysis_inv L (Suc i) (txn_table (analysis_end s t))"
proof (rule analysis_inv_goodI)
  show "distinct (map fst (txn_table (analysis_end s t)))"
    using inv by (simp add: analysis_inv_def analysis_end_def distinct_delete)
next
  fix t' e'
  assume "map_of (txn_table (analysis_end s t)) t' = Some e'"
  then have neq: "t' \<noteq> js_key t" and m: "map_of (txn_table s) t' = Some e'"
    by (auto simp: analysis_end_def delete_conv' split: if_splits)
  from inv m consider
    (good) "\<exists>l. last_lsn e' = Some l \<and> update_by (take i L) l t'"
    | (pending) "0 < i" "is_commit (L ! (i - 1))" "entry_txn_id (L ! (i - 1)) = Some t'"
    unfolding analysis_inv_def by blast
  then show "\<exists>l. last_lsn e' = Some l \<and> update_by (take (Suc i) L) l t'"
  proof cases
    case good
    then show ?thesis
      using update_by_take_mono [of i L _ t' "Suc i"] by auto
  next
    case pending
    with cc i have "is_end_of (js_key (entry_txn_id (L ! (i - 1)))) (L ! i)"
      by (auto simp: commits_closed_def dest!: spec [of _ "i - 1"])
    with pending(3) e have "t = Some t'" by simp
    with neq show ?thesis by simp
  qed
qed

lemma analysis_checkpoint_inv:
  assumes "last_lsns_ok (take i L) tt"
  shows "analysis_inv L (Suc i) (txn_table (analysis_checkpoint s d tt))"
proof (rule analysis_inv_goodI)
  show "distinct (map fst (txn_table (analysis_checkpoint s d tt)))"
    using assms by (simp add: analysis_checkpoint_def last_lsns_ok_def)
next
  fix t' e'
  assume "map_of (txn_table (analysis_checkpoint s d tt)) t' = Some e'"
  then have "map_of tt t' = Some e'" by (simp add: analysis_checkpoint_def)
  with assms obtain l where "last_lsn e' = Some l" "update_by (take i L) l t'"
    unfolding last_lsns_ok_def by blast
  then show "\<exists>l. last_lsn e' = Some l \<and> update_by (take (Suc i) L) l t'"
    using update_by_take_mono [of i L l t' "Suc i"] by auto
qed

lemma analysis_entry_inv:
  assumes "analysis_inv L i (txn_table s)" and "commits_closed L" and "log_ok L" and "i < length L"
  shows "analysis_inv L (Suc i) (txn_table (incr_log_position (analysis_entry s (L ! i))))"
proof -
  from assms(3,4) have ok: "entry_ok (take i L) (L ! i)" by (rule log_ok_nth)
  have len: "length (take i L) = i" using assms(4) by simp
  show ?thesis
  proof (cases "L ! i")
    case (Update l t p b a pl)
    with ok len have "L ! i = Update i t p b a pl" by simp
    from analysis_update_inv [OF assms(1,2,4) this] show ?thesis
      by (simp add: \<open>L ! i = Update i t p b a pl\<close> incr_log_position_def)
  next
    case (LogCommit l t pl)
    with ok len have "L ! i = LogCommit i t pl" by simp
    from analysis_commit_inv [OF assms(1,2,4) this] show ?thesis
      by (simp add: \<open>L ! i = LogCommit i t pl\<close> incr_log_position_def)
  next
    case (LogEnd l t pl)
    with ok len have "L ! i = LogEnd i t pl" by simp
    from analysis_end_inv [OF assms(1,2,4) this] show ?thesis
      by (simp add: \<open>L ! i = LogEnd i t pl\<close> incr_log_position_def)
  next
    case (CLR l t p a u pl)
    with ok show ?thesis by simp
  next
    case (LogCheckpoint l d tt)
    with ok have "last_lsns_ok (take i L) tt" by simp
    from analysis_checkpoint_inv [OF this] show ?thesis
      by (simp add: LogCheckpoint incr_log_position_def)
  qed
qed

lemma analysis_entry_frame:
  "log (incr_log_position (analysis_entry s e)) = log s \<and>
   disk (incr_log_position (analysis_entry s e)) = disk s"
  by (cases e)
     (simp_all add: incr_log_position_def analysis_update_def analysis_commit_def analysis_end_def
        analysis_clr_def analysis_checkpoint_def Let_def begin_txn_def dirty_def)

lemma drop_eq_ConsD:
  assumes "e # es = drop i L"
  shows "i < length L \<and> L ! i = e \<and> es = drop (Suc i) L"
proof -
  from assms have i: "i < length L"
    by (cases "i < length L") auto
  from Cons_nth_drop_Suc [OF i] assms have "L ! i # drop (Suc i) L = e # es"
    by simp
  with i show ?thesis by simp
qed

lemma analysis_loop_inv:
  assumes "log_ok L" and "commits_closed L" and "es = drop i L"
    and "analysis_inv L i (txn_table s)"
  shows "\<exists>states' s'. analysis_loop states s es = (states', s') \<and>
           (\<exists>j \<ge> length L. analysis_inv L j (txn_table s')) \<and> log s' = log s \<and> disk s' = disk s"
  using assms(3,4)
proof (induction es arbitrary: states s i)
  case Nil
  then have "length L \<le> i" by simp
  with Nil show ?case by auto
next
  case (Cons e es)
  from drop_eq_ConsD [OF Cons.prems(1)]
  have i: "i < length L" and e: "L ! i = e" and es: "es = drop (Suc i) L"
    by simp_all
  define s1 where "s1 = incr_log_position (analysis_entry s e)"
  have "analysis_inv L (Suc i) (txn_table s1)"
    using analysis_entry_inv [OF Cons.prems(2) assms(2,1) i] by (simp add: s1_def e)
  from Cons.IH [OF es this, of "states @ [s1]"] obtain states' s' where
    "analysis_loop (states @ [s1]) s1 es = (states', s')"
    "\<exists>j \<ge> length L. analysis_inv L j (txn_table s')" "log s' = log s1" "disk s' = disk s1"
    by blast
  then show ?case
    using analysis_entry_frame [of s e] by (simp add: s1_def Let_def)
qed

lemma analysis_inv_final:
  assumes "analysis_inv L j tt" and "length L \<le> j" and "commits_closed L"
  shows "last_lsns_ok L tt"
  unfolding last_lsns_ok_def
proof (intro conjI allI impI)
  show "distinct (map fst tt)"
    using assms(1) by (simp add: analysis_inv_def)
next
  fix t e
  assume "map_of tt t = Some e"
  with assms(1) consider
    (good) "\<exists>l. last_lsn e = Some l \<and> update_by (take j L) l t"
    | (pending) "0 < j" "j \<le> length L" "is_commit (L ! (j - 1))"
    unfolding analysis_inv_def by blast
  then show "\<exists>l. last_lsn e = Some l \<and> update_by L l t"
  proof cases
    case good
    then show ?thesis
      using update_by_take by blast
  next
    case pending
    with assms(2) have "j = length L" by simp
    with pending assms(3) have "Suc (j - 1) < length L"
      by (auto simp: commits_closed_def dest!: spec [of _ "j - 1"])
    with \<open>j = length L\<close> pending(1) show ?thesis by simp
  qed
qed

lemma last_lsns_ok_mark_aborted: "last_lsns_ok L tt \<Longrightarrow> last_lsns_ok L (mark_aborted tt)"
proof -
  have keys: "map fst (mark_aborted tt) = map fst tt"
    by (induction tt) (auto simp: mark_aborted_def)
  have look: "\<And>t. map_of (mark_aborted tt) t =
      map_option (\<lambda>e. if txn_status e = Some IN_PROGRESS then e\<lparr>txn_status := Some ABORTED\<rparr> else e)
        (map_of tt t)"
    by (induction tt) (auto simp: mark_aborted_def)
  assume "last_lsns_ok L tt"
  then show ?thesis
    unfolding last_lsns_ok_def keys look by fastforce
qed

lemma analysis_ok:
  assumes "states \<noteq> []" and "crashed_ok (last states)"
  shows "\<exists>states'. analysis states = Inr states' \<and> states' \<noteq> [] \<and> recover_ok (last states')"
proof -
  define s0 where "s0 = last states"
  define L where "L = log s0"
  define start where "start = latest_checkpoint_lsn s0"
  define s1 where "s1 = s0\<lparr>phase := ANALYSIS, log_position := Some start\<rparr>"
  from assms(2) have ok: "log_ok L" "commits_closed L" "pages_on_disk L (disk s0)" "txn_table s0 = []"
    by (simp_all add: crashed_ok_def s0_def L_def)
  have "analysis_inv L start (txn_table s1)"
    using ok(4) by (simp add: analysis_inv_def s1_def)
  from analysis_loop_inv [OF ok(1,2) refl this, of states] obtain states1 s2 j where
    loop: "analysis_loop states s1 (drop start L) = (states1, s2)"
    and j: "length L \<le> j" "analysis_inv L j (txn_table s2)"
    and frame: "log s2 = log s1" "disk s2 = disk s1"
    by blast
  define s3 where "s3 = s2\<lparr>txn_table := mark_aborted (txn_table s2)\<rparr>"
  have res: "analysis states = Inr (states1 @ [s3])"
    using assms(1) loop
    by (simp add: analysis_def Let_def s0_def [symmetric] start_def [symmetric] s1_def [symmetric]
        L_def s3_def)
  have "last_lsns_ok L (txn_table s3)"
    using analysis_inv_final [OF j(2,1) ok(2)] by (simp add: s3_def last_lsns_ok_mark_aborted)
  then have "recover_ok s3"
    using ok frame by (simp add: recover_ok_def s3_def s1_def L_def)
  with res show ?thesis by simp
qed

subsection \<open>Redo does not fail\<close>

lemma redo_writes_ok:
  "pages_on_disk es dk \<Longrightarrow> \<exists>ws. redo_writes d dk es = Inr ws"
proof (induction es)
  case Nil
  then show ?case by simp
next
  case (Cons e es)
  from Cons.prems have rest: "pages_on_disk es dk"
    by (simp add: pages_on_disk_def)
  from Cons.IH [OF rest] obtain ws where ws: "redo_writes d dk es = Inr ws" by blast
  show ?case
  proof (cases e)
    case (Update l t p b a pl)
    with Cons.prems have "p \<in> fst ` set dk"
      by (simp add: pages_on_disk_def)
    then obtain dp where "map_of dk p = Some dp"
      by (metis domD dom_map_of_conv_image_fst)
    with ws Update show ?thesis
      by (simp split: option.splits)
  qed (simp_all add: ws)
qed

lemma redo_ok:
  assumes "states \<noteq> []" and "recover_ok (last states)"
  shows "\<exists>states'. redo states = Inr states' \<and> states' \<noteq> [] \<and> recover_ok (last states')"
proof (cases "min_rec_lsn (last states)")
  case None
  with assms show ?thesis by (simp add: redo_def)
next
  case (Some start)
  define s0 where "s0 = redo_start (last states)"
  define es where "es = drop start (log s0)"
  have frame0: "log s0 = log (last states)" "disk s0 = disk (last states)"
    "txn_table s0 = txn_table (last states)"
    by (simp_all add: s0_def redo_start_def)
  from assms(2) have "pages_on_disk (log s0) (disk s0)"
    by (simp add: recover_ok_def frame0)
  then have "pages_on_disk es (disk s0)"
    by (auto simp: es_def pages_on_disk_def dest: in_set_dropD)
  from redo_writes_ok [OF this] obtain ws where
    ws: "redo_writes (dirty_page_table s0) (disk s0) es = Inr ws" by blast
  define sf where "sf = s0\<lparr>buffer_pool := apply_writes ws (buffer_pool s0),
      log_position := map_option (\<lambda>n. n + length es) (log_position s0)\<rparr>"
  have "redo_run s0 es = Inr sf"
    by (simp add: redo_run_writes ws sf_def)
  from redo_run_loop [OF this, of states] obtain snaps where
    loop: "redo_loop states s0 es = Inr (states @ snaps)" and last: "last (s0 # snaps) = sf"
    by blast
  have res: "redo states = Inr (states @ snaps)"
    using assms(1) Some loop by (simp add: redo_def s0_def es_def)
  have "recover_ok (last (states @ snaps))"
  proof (cases "snaps = []")
    case True
    with assms(2) show ?thesis by simp
  next
    case False
    with last have "last (states @ snaps) = sf" by simp
    with assms(2) show ?thesis
      by (simp add: recover_ok_def sf_def frame0)
  qed
  with res assms(1) show ?thesis by simp
qed

lemma run_to_redo_ok:
  "\<exists>states. run_to_redo os = Inr states \<and> states \<noteq> [] \<and> recover_ok (last states)"
proof -
  from run_to_crash_ok [of os] obtain st1 where
    "run_to_crash os = Inr st1" "st1 \<noteq> []" "crashed_ok (last st1)" by blast
  moreover from analysis_ok [OF this(2,3)] obtain st2 where
    "analysis st1 = Inr st2" "st2 \<noteq> []" "recover_ok (last st2)" by blast
  moreover from redo_ok [OF this(2,3)] obtain st3 where
    "redo st2 = Inr st3" "st3 \<noteq> []" "recover_ok (last st3)" by blast
  ultimately show ?thesis
    by (simp add: run_to_redo_def run_to_analysis_def)
qed

subsection \<open>Undo terminates with an empty transaction table\<close>

lemma mset_js_sort: "mset (js_sort xs) = mset xs"
proof -
  have "image_mset Some (mset (List.map_filter id xs)) + mset (filter (\<lambda>x. x = None) xs) = mset xs"
    by (induction xs) (auto simp: map_filter_simps split: option.splits)
  then show ?thesis
    by (simp add: js_sort_def)
qed

lemma set_js_sort: "set (js_sort xs) = set xs"
  using mset_js_sort [of xs] by (rule mset_eq_setD)

lemma js_sort_nonempty: "xs \<noteq> [] \<Longrightarrow> js_sort xs \<noteq> []"
  using set_js_sort [of xs] by auto

lemma undo_measure_mset: "mset xs = mset ys \<Longrightarrow> undo_measure xs = undo_measure ys"
proof -
  assume "mset xs = mset ys"
  then have "mset (map (\<lambda>x. case x of None \<Rightarrow> 0 | Some l \<Rightarrow> Suc l) xs) =
      mset (map (\<lambda>x. case x of None \<Rightarrow> (0::nat) | Some l \<Rightarrow> Suc l) ys)"
    by simp
  then show ?thesis
    unfolding undo_measure_def by (metis sum_mset_sum_list)
qed

lemma undo_measure_snoc: "undo_measure (xs @ [x]) = undo_measure xs + (case x of None \<Rightarrow> 0 | Some l \<Rightarrow> Suc l)"
  by (simp add: undo_measure_def)

lemma undo_chain_fuel:
  assumes "log_ok L"
  shows "l < length L \<Longrightarrow> is_update (L ! l) \<Longrightarrow> l < k \<Longrightarrow> undo_chain L k l = undo_chain L (Suc l) l"
proof (induction l arbitrary: k rule: less_induct)
  case (less l)
  from less.prems(3) obtain k' where k: "k = Suc k'" and lk: "l \<le> k'"
    by (cases k) auto
  from log_ok_nth [OF assms less.prems(1)] have ok: "entry_ok (take l L) (L ! l)" .
  show ?case
  proof (cases "entry_prev_lsn (L ! l)")
    case None
    then show ?thesis
      using less.prems(1) by (simp add: k)
  next
    case (Some m)
    with ok less.prems(2) have "update_by (take l L) m (js_key (entry_txn_id (L ! l)))"
      by (cases "L ! l") auto
    then have m: "m < l" "m < length L" "is_update (L ! m)"
      using less.prems(1) by (auto simp: update_by_def)
    have "undo_chain L k' m = undo_chain L (Suc m) m"
      using m lk by (intro less.IH) auto
    moreover have "undo_chain L l m = undo_chain L (Suc m) m"
      using m by (intro less.IH) auto
    ultimately show ?thesis
      using less.prems(1) Some by (simp add: k)
  qed
qed

lemma set_pending_lsns:
  "set (pending_lsns L losers) =
     (\<Union>x \<in> set losers. set (case x of None \<Rightarrow> [] | Some l \<Rightarrow> undo_chain L (Suc l) l))"
  by (simp add: pending_lsns_def)

lemma delete_map_entry: "AList.delete k (AList.map_entry k f al) = AList.delete k al"
  by (induction al) auto

lemma undo_iteration_update:
  assumes sel: "last (js_sort losers) = Some l" and l: "l < length (log s)"
    and e: "log s ! l = Update l t p b a pl"
    and dk: "map_of (disk s) p = Some dp"
    and tt: "map_of (txn_table s) t = Some te"
  shows "undo_iteration s losers =
     Inr (s\<lparr>log := log s @ CLR (length (log s)) (Some t) (Some p) (num_val pl) (str_val b) (last_lsn te) #
                   (case pl of None \<Rightarrow> [LogEnd (Suc (length (log s))) (Some t) (length (log s))]
                    | Some m \<Rightarrow> []),
             buffer_pool := AList.update p \<lparr>page_lsn = int (length (log s)), page_value = b\<rparr> (buffer_pool s),
             txn_table := (case pl of
                             None \<Rightarrow> AList.delete t (txn_table s)
                           | Some m \<Rightarrow> AList.map_entry t (\<lambda>e. e\<lparr>last_lsn := Some (length (log s))\<rparr>)
                                        (txn_table s)),
             log_position := Some l\<rparr>,
          butlast (js_sort losers) @ (case pl of None \<Rightarrow> [] | Some m \<Rightarrow> [Some m]))"
proof (cases "map_of (buffer_pool s) p")
  case None
  then show ?thesis
    using assms
    by (cases pl)
       (simp_all add: undo_iteration_def Let_def log_at_def pin_def aries_last_lsn_def set_page_def
          map_entry_update map_entry_present page_overwrite update_conv' delete_map_entry
          delete_update_same)
next
  case (Some pg)
  then show ?thesis
    using assms
    by (cases pl)
       (simp_all add: undo_iteration_def Let_def log_at_def pin_def aries_last_lsn_def set_page_def
          map_entry_present page_overwrite delete_map_entry delete_update_same)
qed

lemma map_fst_map_entry: "map fst (AList.map_entry k f al) = map fst al"
  by (induction al) auto

lemma mset_keys_delete:
  "distinct (map fst al) \<Longrightarrow> mset (map fst (AList.delete k al)) = mset (map fst al) - {#k#}"
  by (simp add: delete_keys distinct_remove1_removeAll [symmetric])

lemma pending_lsns_append:
  "set (pending_lsns L (xs @ ys)) = set (pending_lsns L xs) \<union> set (pending_lsns L ys)"
  by (simp add: pending_lsns_def)

lemma reverted_step:
  assumes rev: "reverted L bp U" and upd: "\<forall>l2 \<in> U. is_update (L ! l2)"
    and e: "L ! l = Update l t p b a pl"
  shows "reverted L (AList.update p \<lparr>page_lsn = n, page_value = b\<rparr> bp) (insert l U)"
  unfolding reverted_def
proof
  fix l2 assume l2: "l2 \<in> insert l U"
  let ?bp = "AList.update p \<lparr>page_lsn = n, page_value = b\<rparr> bp"
  show "\<exists>l' \<in> insert l U. \<exists>pg. entry_page_id (L ! l') = entry_page_id (L ! l2) \<and>
      map_of ?bp (js_key (entry_page_id (L ! l2))) = Some pg \<and> page_value pg = entry_before (L ! l')"
  proof (cases "entry_page_id (L ! l2) = Some p")
    case True
    then have "entry_page_id (L ! l) = entry_page_id (L ! l2) \<and>
        map_of ?bp (js_key (entry_page_id (L ! l2))) = Some \<lparr>page_lsn = n, page_value = b\<rparr> \<and>
        page_value \<lparr>page_lsn = n, page_value = b\<rparr> = entry_before (L ! l)"
      by (simp add: e update_conv')
    then show ?thesis by blast
  next
    case False
    with l2 e have in_U: "l2 \<in> U" by auto
    with upd have "is_update (L ! l2)" by blast
    with False have key: "js_key (entry_page_id (L ! l2)) \<noteq> p"
      by (cases "L ! l2") auto
    from rev in_U obtain l' pg where "l' \<in> U" "entry_page_id (L ! l') = entry_page_id (L ! l2)"
      "map_of bp (js_key (entry_page_id (L ! l2))) = Some pg" "page_value pg = entry_before (L ! l')"
      unfolding reverted_def by blast
    with key have "l' \<in> insert l U \<and> entry_page_id (L ! l') = entry_page_id (L ! l2) \<and>
        map_of ?bp (js_key (entry_page_id (L ! l2))) = Some pg \<and> page_value pg = entry_before (L ! l')"
      by (simp add: update_conv')
    then show ?thesis by blast
  qed
qed

lemma mset_add_single_diff: "A + {#t#} = B \<Longrightarrow> A = B - {#t#}"
  by auto

lemma undo_step:
  assumes ok: "log_ok L" and inv: "undo_inv L s losers U" and ne: "losers \<noteq> []"
  shows "\<exists>s' losers' l. undo_iteration s losers = Inr (s', losers') \<and>
           undo_inv L s' losers' (insert l U) \<and>
           undo_measure losers' < undo_measure losers \<and> phase s' = phase s \<and>
           set (pending_lsns L losers) = insert l (set (pending_lsns L losers'))"
proof -
  from inv have pre: "take (length L) (log s) = L" and len: "length L \<le> length (log s)"
    and pod: "pages_on_disk L (disk s)" and dist: "distinct (map fst (txn_table s))"
    and los: "\<forall>x \<in> set losers. \<exists>l. x = Some l \<and> l < length L \<and> is_update (L ! l)"
    and ms: "mset (map (loser_txn L) losers) = mset (map fst (txn_table s))"
    and Uupd: "\<forall>l \<in> U. l < length L \<and> is_update (L ! l)"
    and rev: "reverted L (buffer_pool s) U"
    by (simp_all add: undo_inv_def)
  define sorted where "sorted = js_sort losers"
  have sne: "sorted \<noteq> []" using ne by (simp add: sorted_def js_sort_nonempty)
  have smset: "mset sorted = mset losers" by (simp add: sorted_def mset_js_sort)
  have sset: "set sorted = set losers" by (simp add: sorted_def set_js_sort)
  from sne obtain bs xl where split0: "sorted = bs @ [xl]"
    by (cases sorted rule: rev_cases) auto
  then have "xl \<in> set losers" using sset by auto
  with los obtain l where xl: "xl = Some l" and l: "l < length L" and upd: "is_update (L ! l)"
    by blast
  have split: "sorted = bs @ [Some l]" and x: "last sorted = Some l" and bs: "butlast sorted = bs"
    using split0 xl by simp_all
  from upd obtain l' t p b a pl where e0: "L ! l = Update l' t p b a pl"
    by (cases "L ! l") auto
  from log_ok_nth [OF ok l] e0 l have "l' = l" and prev: "\<forall>m. pl = Some m \<longrightarrow> update_by (take l L) m t"
    by auto
  with e0 have e: "L ! l = Update l t p b a pl" by simp
  have ls: "l < length (log s)" using l len by simp
  have "log s ! l = take (length L) (log s) ! l" using l by simp
  with pre e have es: "log s ! l = Update l t p b a pl" by simp
  have "Update l t p b a pl \<in> set L" using l e by (metis nth_mem)
  with pod have "js_key (entry_page_id (Update l t p b a pl)) \<in> fst ` set (disk s)"
    unfolding pages_on_disk_def by (metis is_update.simps(1))
  then have "p \<in> fst ` set (disk s)" by simp
  then obtain dp where dp: "map_of (disk s) p = Some dp"
    by (metis domD dom_map_of_conv_image_fst)
  have tx: "loser_txn L (Some l) = t"
    by (simp add: loser_txn_def e)
  have "Some l \<in> set losers"
    using \<open>xl \<in> set losers\<close> xl by simp
  then have "t \<in> set (map (loser_txn L) losers)"
    using tx by force
  then have "t \<in># mset (map (loser_txn L) losers)"
    by simp
  then have "t \<in> fst ` set (txn_table s)"
    unfolding ms by simp
  then obtain te where te: "map_of (txn_table s) t = Some te"
    by (metis domD dom_map_of_conv_image_fst)
  define ext where "ext = CLR (length (log s)) (Some t) (Some p) (num_val pl) (str_val b) (last_lsn te) #
      (case pl of None \<Rightarrow> [LogEnd (Suc (length (log s))) (Some t) (length (log s))] | Some m \<Rightarrow> [])"
  define tt' where "tt' = (case pl of None \<Rightarrow> AList.delete t (txn_table s)
      | Some m \<Rightarrow> AList.map_entry t (\<lambda>e. e\<lparr>last_lsn := Some (length (log s))\<rparr>) (txn_table s))"
  define s' where "s' = s\<lparr>log := log s @ ext,
      buffer_pool := AList.update p \<lparr>page_lsn = int (length (log s)), page_value = b\<rparr> (buffer_pool s),
      txn_table := tt', log_position := Some l\<rparr>"
  define losers' where "losers' = bs @ (case pl of None \<Rightarrow> [] | Some m \<Rightarrow> [Some m])"
  have step: "undo_iteration s losers = Inr (s', losers')"
    using undo_iteration_update [OF x [unfolded sorted_def] ls es dp te] bs
    by (simp add: s'_def losers'_def ext_def tt'_def sorted_def)
  have msb: "mset (map (loser_txn L) bs) + {#t#} = mset (map fst (txn_table s))"
  proof -
    have "mset (map (loser_txn L) sorted) = mset (map (loser_txn L) losers)"
      using smset by (metis mset_map)
    moreover have "map (loser_txn L) sorted = map (loser_txn L) bs @ [t]"
      by (simp add: split loser_txn_def e)
    ultimately show ?thesis using ms by simp
  qed
  have meas: "undo_measure losers = undo_measure bs + Suc l"
  proof -
    have "undo_measure losers = undo_measure sorted"
      using smset by (intro undo_measure_mset) simp
    then show ?thesis by (simp add: split undo_measure_snoc)
  qed
  have pend: "set (pending_lsns L losers) =
      set (pending_lsns L bs) \<union> set (undo_chain L (Suc l) l)"
  proof -
    have "set (pending_lsns L losers) = set (pending_lsns L sorted)"
      by (simp add: set_pending_lsns sset)
    also have "\<dots> = set (pending_lsns L bs) \<union> set (pending_lsns L [Some l])"
      unfolding split by (rule pending_lsns_append)
    finally show ?thesis
      by (simp add: pending_lsns_def)
  qed
  have bl: "\<forall>x \<in> set bs. \<exists>l. x = Some l \<and> l < length L \<and> is_update (L ! l)"
    using los sset split by auto
  have frame: "take (length L) (log s') = L" "length L \<le> length (log s')"
    "pages_on_disk L (disk s')" "phase s' = phase s"
    using pre len pod by (simp_all add: s'_def)
  have U': "\<forall>l2 \<in> insert l U. l2 < length L \<and> is_update (L ! l2)"
    using Uupd l upd by simp
  have rev': "reverted L (buffer_pool s') (insert l U)"
    using reverted_step [OF rev _ e] Uupd by (simp add: s'_def)
  have tts: "txn_table s' = tt'" by (simp add: s'_def)
  have invI: "distinct (map fst tt') \<Longrightarrow>
      (\<forall>x \<in> set losers'. \<exists>l. x = Some l \<and> l < length L \<and> is_update (L ! l)) \<Longrightarrow>
      mset (map (loser_txn L) losers') = mset (map fst tt') \<Longrightarrow>
      undo_inv L s' losers' (insert l U)"
    unfolding undo_inv_def tts using frame U' rev' by blast
  show ?thesis
  proof (cases pl)
    case None
    have l': "losers' = bs" and t': "tt' = AList.delete t (txn_table s)"
      using None by (simp_all add: losers'_def tt'_def)
    have "mset (map (loser_txn L) bs) = mset (map fst (txn_table s)) - {#t#}"
      using msb by (rule mset_add_single_diff)
    also have "\<dots> = mset (map fst (AList.delete t (txn_table s)))"
      using dist by (rule mset_keys_delete [symmetric])
    finally have "mset (map (loser_txn L) losers') = mset (map fst tt')"
      unfolding l' t' .
    moreover have "distinct (map fst tt')"
      unfolding t' using dist by (rule distinct_delete)
    moreover have "\<forall>x \<in> set losers'. \<exists>l. x = Some l \<and> l < length L \<and> is_update (L ! l)"
      unfolding l' by (rule bl)
    ultimately have "undo_inv L s' losers' (insert l U)"
      by (intro invI)
    moreover have "undo_measure losers' < undo_measure losers"
      by (simp add: l' meas)
    moreover have "set (undo_chain L (Suc l) l) = {l}"
      using l e None by simp
    then have "set (pending_lsns L losers) = insert l (set (pending_lsns L losers'))"
      by (simp add: pend l')
    ultimately show ?thesis
      using step frame(4) by blast
  next
    case (Some m)
    with prev have "update_by (take l L) m t" by simp
    then have m: "m < l" "m < length L" "is_update (L ! m)" "entry_txn_id (L ! m) = Some t"
      using l by (auto simp: update_by_def)
    have fuel: "undo_chain L l m = undo_chain L (Suc m) m"
      using m by (intro undo_chain_fuel [OF ok]) auto
    have l': "losers' = bs @ [Some m]"
      and t': "tt' = AList.map_entry t (\<lambda>e. e\<lparr>last_lsn := Some (length (log s))\<rparr>) (txn_table s)"
      using Some by (simp_all add: losers'_def tt'_def)
    have "loser_txn L (Some m) = t"
      using m(4) by (simp add: loser_txn_def)
    then have "mset (map (loser_txn L) losers') = mset (map (loser_txn L) bs) + {#t#}"
      by (simp add: l')
    also have "\<dots> = mset (map fst (txn_table s))"
      by (rule msb)
    also have "\<dots> = mset (map fst tt')"
      by (simp only: t' map_fst_map_entry)
    finally have "mset (map (loser_txn L) losers') = mset (map fst tt')" .
    moreover have "distinct (map fst tt')"
      unfolding t' using dist by (simp only: map_fst_map_entry)
    moreover have "\<forall>x \<in> set losers'. \<exists>l. x = Some l \<and> l < length L \<and> is_update (L ! l)"
      using bl m by (simp add: l')
    ultimately have inv': "undo_inv L s' losers' (insert l U)"
      by (intro invI)
    have dec: "undo_measure losers' < undo_measure losers"
      using m by (simp add: l' meas undo_measure_snoc)
    have "set (pending_lsns L losers') =
        set (pending_lsns L bs) \<union> set (undo_chain L (Suc m) m)"
      unfolding l' pending_lsns_append by (simp add: pending_lsns_def)
    moreover have "set (undo_chain L (Suc l) l) = insert l (set (undo_chain L (Suc m) m))"
      using l e Some fuel by simp
    ultimately have "set (pending_lsns L losers) = insert l (set (pending_lsns L losers'))"
      by (simp add: pend)
    with inv' dec show ?thesis
      using step frame(4) by blast
  qed
qed

lemma undo_loop_ok:
  assumes ok: "log_ok L"
  shows "undo_inv L s losers U \<Longrightarrow>
     \<exists>extra. undo_loop states s losers = Some (Inr (states @ extra)) \<and> extra \<noteq> [] \<and>
       txn_table (last extra) = [] \<and> phase (last extra) = phase s \<and>
       reverted L (buffer_pool (last extra)) (U \<union> set (pending_lsns L losers))"
proof (induction "undo_measure losers" arbitrary: states s losers U rule: less_induct)
  case less
  show ?case
  proof (cases "losers = []")
    case True
    with less.prems have "mset (map fst (txn_table s)) = {#}"
      by (simp add: undo_inv_def)
    then have "txn_table s = []" by simp
    moreover have "reverted L (buffer_pool s) U"
      using less.prems by (simp add: undo_inv_def)
    ultimately show ?thesis
      using True by (subst undo_loop.simps) (simp add: pending_lsns_def)
  next
    case False
    from undo_step [OF ok less.prems False] obtain s' losers' l where
      step: "undo_iteration s losers = Inr (s', losers')"
      and inv': "undo_inv L s' losers' (insert l U)"
      and dec: "undo_measure losers' < undo_measure losers"
      and ph: "phase s' = phase s"
      and pend: "set (pending_lsns L losers) = insert l (set (pending_lsns L losers'))"
      by blast
    from less.hyps [OF dec inv', of "states @ [s']"] obtain extra where
      res: "undo_loop (states @ [s']) s' losers' = Some (Inr ((states @ [s']) @ extra))" "extra \<noteq> []"
        "txn_table (last extra) = []" "phase (last extra) = phase s'"
      and rev: "reverted L (buffer_pool (last extra)) (insert l U \<union> set (pending_lsns L losers'))"
      by blast
    have "insert l U \<union> set (pending_lsns L losers') = U \<union> set (pending_lsns L losers)"
      using pend by auto
    with rev have "reverted L (buffer_pool (last (s' # extra))) (U \<union> set (pending_lsns L losers))"
      using res(2) by simp
    moreover have "undo_loop states s losers = Some (Inr (states @ s' # extra))"
      using False step res(1) by (subst undo_loop.simps) simp
    ultimately show ?thesis
      using res ph by (intro exI [of _ "s' # extra"]) simp
  qed
qed

lemma undo_inv_start:
  assumes "recover_ok s"
  shows "undo_inv (log s) (s\<lparr>phase := UNDO\<rparr>) (map (\<lambda>(k, e). last_lsn e) (txn_table s)) {}"
proof -
  from assms have lo: "last_lsns_ok (log s) (txn_table s)" and pod: "pages_on_disk (log s) (disk s)"
    by (simp_all add: recover_ok_def)
  from lo have dist: "distinct (map fst (txn_table s))"
    and each: "\<And>t e. map_of (txn_table s) t = Some e \<Longrightarrow> \<exists>l. last_lsn e = Some l \<and> update_by (log s) l t"
    by (auto simp: last_lsns_ok_def)
  have mem: "\<And>k e. (k, e) \<in> set (txn_table s) \<Longrightarrow>
      \<exists>l. last_lsn e = Some l \<and> l < length (log s) \<and> is_update (log s ! l) \<and>
          loser_txn (log s) (last_lsn e) = k"
  proof -
    fix k e assume "(k, e) \<in> set (txn_table s)"
    with dist have "map_of (txn_table s) k = Some e" by simp
    from each [OF this] show "\<exists>l. last_lsn e = Some l \<and> l < length (log s) \<and>
        is_update (log s ! l) \<and> loser_txn (log s) (last_lsn e) = k"
      by (auto simp: update_by_def loser_txn_def)
  qed
  have "map (loser_txn (log s)) (map (\<lambda>(k, e). last_lsn e) (txn_table s)) = map fst (txn_table s)"
    using mem by (fastforce simp: comp_def)
  moreover have "\<forall>x \<in> set (map (\<lambda>(k, e). last_lsn e) (txn_table s)).
      \<exists>l. x = Some l \<and> l < length (log s) \<and> is_update (log s ! l)"
    using mem by fastforce
  ultimately have
    "mset (map (loser_txn (log s)) (map (\<lambda>(k, e). last_lsn e) (txn_table s))) =
       mset (map fst (txn_table s))"
    and "\<forall>x \<in> set (map (\<lambda>(k, e). last_lsn e) (txn_table s)).
      \<exists>l. x = Some l \<and> l < length (log s) \<and> is_update (log s ! l)"
    by (simp_all only:)
  moreover have "reverted (log s) (buffer_pool s) {}"
    by (simp add: reverted_def)
  moreover have "log (s\<lparr>phase := UNDO\<rparr>) = log s" "disk (s\<lparr>phase := UNDO\<rparr>) = disk s"
    "txn_table (s\<lparr>phase := UNDO\<rparr>) = txn_table s" "buffer_pool (s\<lparr>phase := UNDO\<rparr>) = buffer_pool s"
    by simp_all
  ultimately show ?thesis
    unfolding undo_inv_def using dist pod by (simp only: take_all order_refl ball_empty simp_thms)
qed

lemma undo_chain_updates:
  assumes "log_ok L"
  shows "update_by L l t \<Longrightarrow> m \<in> set (undo_chain L k l) \<Longrightarrow> update_by L m t"
proof (induction k arbitrary: l)
  case 0
  then show ?case by simp
next
  case (Suc k)
  from Suc.prems(1) have l: "l < length L" "is_update (L ! l)" "entry_txn_id (L ! l) = Some t"
    by (simp_all add: update_by_def)
  show ?case
  proof (cases "m = l")
    case True
    with Suc.prems(1) show ?thesis by simp
  next
    case False
    with Suc.prems(2) l(1) obtain n where n: "entry_prev_lsn (L ! l) = Some n"
      and mem: "m \<in> set (undo_chain L k n)"
      by (cases "entry_prev_lsn (L ! l)") auto
    from log_ok_nth [OF assms l(1)] l(2,3) n have "update_by (take l L) n t"
      by (cases "L ! l") auto
    then have "update_by L n t" by (rule update_by_take)
    from Suc.IH [OF this mem] show ?thesis .
  qed
qed

lemma loser_lsns_updates:
  assumes "recover_ok s" and "l \<in> set (loser_lsns s)"
  shows "l < length (log s) \<and> is_update (log s ! l) \<and>
         js_key (entry_txn_id (log s ! l)) \<in> fst ` set (txn_table s)"
proof -
  from assms(1) have ok: "log_ok (log s)" and lo: "last_lsns_ok (log s) (txn_table s)"
    by (simp_all add: recover_ok_def)
  from assms(2) obtain x where x: "x \<in> set (txn_table s)"
    and xm: "l \<in> set (case (case x of (k, e) \<Rightarrow> last_lsn e) of None \<Rightarrow> []
                     | Some n \<Rightarrow> undo_chain (log s) (Suc n) n)"
    unfolding loser_lsns_def set_pending_lsns by auto
  obtain k e where xe: "x = (k, e)" by (cases x)
  from xm xe obtain n where n: "last_lsn e = Some n"
    and mem: "l \<in> set (undo_chain (log s) (Suc n) n)"
    by (cases "last_lsn e") (auto simp del: undo_chain.simps)
  from x xe have ke: "(k, e) \<in> set (txn_table s)" by simp
  from lo ke have "map_of (txn_table s) k = Some e"
    by (simp add: last_lsns_ok_def)
  with lo n have "update_by (log s) n k"
    unfolding last_lsns_ok_def by fastforce
  from undo_chain_updates [OF ok this mem] have "update_by (log s) l k" .
  moreover from ke have "k \<in> fst ` set (txn_table s)" by force
  ultimately show ?thesis
    by (simp add: update_by_def)
qed

lemma undo_ok:
  assumes "states \<noteq> []" and "recover_ok (last states)"
  shows "\<exists>extra. undo states = Some (Inr (states @ extra)) \<and> extra \<noteq> [] \<and>
           txn_table (last extra) = [] \<and> phase (last extra) = UNDO \<and>
           reverted (log (last states)) (buffer_pool (last extra)) (set (loser_lsns (last states)))"
proof -
  from assms(2) have ok: "log_ok (log (last states))" by (simp add: recover_ok_def)
  from undo_loop_ok [OF ok undo_inv_start [OF assms(2)], of states] assms(1)
  show ?thesis
    by (simp add: undo_def Let_def loser_lsns_def)
qed

subsection \<open>The whole run\<close>

lemma simulate_run_to_redo:
  "simulate os = (case run_to_redo os of Inl e \<Rightarrow> Some (Inl e) | Inr states \<Rightarrow> undo states)"
  by (simp add: simulate_def run_to_redo_def run_to_analysis_def run_to_crash_def Let_def
      split: sum.splits)

lemma simulate_ok:
  "\<exists>states_r extra. run_to_redo os = Inr states_r \<and> states_r \<noteq> [] \<and> recover_ok (last states_r) \<and>
     simulate os = Some (Inr (states_r @ extra)) \<and> extra \<noteq> [] \<and>
     txn_table (last extra) = [] \<and> phase (last extra) = UNDO \<and>
     reverted (log (last states_r)) (buffer_pool (last extra)) (set (loser_lsns (last states_r)))"
proof -
  from run_to_redo_ok [of os] obtain states_r where
    r: "run_to_redo os = Inr states_r" "states_r \<noteq> []" "recover_ok (last states_r)"
    by blast
  from undo_ok [OF r(2,3)] obtain extra where
    "undo states_r = Some (Inr (states_r @ extra))" "extra \<noteq> []"
    "txn_table (last extra) = []" "phase (last extra) = UNDO"
    "reverted (log (last states_r)) (buffer_pool (last extra)) (set (loser_lsns (last states_r)))"
    by blast
  with r show ?thesis
    by (simp add: simulate_run_to_redo)
qed

section \<open>Undo completeness\<close>

text \<open>
  What Undo achieves in whatever order it takes the loser LSNs: for every sequence of
  operations with plain ids \<open>aries.simulate\<close> returns; after Undo the transaction table
  is empty; and every update of a loser (an entry reached along \<open>prev_lsn\<close> from the
  \<open>last_lsn\<close> of a transaction that is in the table when Undo starts) is an Update entry
  of a transaction in that table whose page is in the buffer pool at the end, holding the
  before-image of one of the losers' updates of that page. This is less than undoing
  every loser: it does not say that the page holds the before-image of the earliest of
  them.
\<close>

lemma undo_before_images:
  assumes "plain_ids os"
  shows "\<exists>states_r states.
     run_to_redo os = Inr states_r \<and> simulate os = Some (Inr states) \<and>
     txn_table (last states) = [] \<and>
     (\<forall>l \<in> set (loser_lsns (last states_r)).
        l < length (log (last states_r)) \<and> is_update (log (last states_r) ! l) \<and>
        js_key (entry_txn_id (log (last states_r) ! l)) \<in> fst ` set (txn_table (last states_r)) \<and>
        (\<exists>l' \<in> set (loser_lsns (last states_r)). \<exists>pg.
           entry_page_id (log (last states_r) ! l') = entry_page_id (log (last states_r) ! l) \<and>
           map_of (buffer_pool (last states)) (js_key (entry_page_id (log (last states_r) ! l))) = Some pg \<and>
           page_value pg = entry_before (log (last states_r) ! l')))"
proof -
  from simulate_ok [of os] obtain states_r extra where
    r: "run_to_redo os = Inr states_r" "recover_ok (last states_r)"
    and s: "simulate os = Some (Inr (states_r @ extra))" "extra \<noteq> []" "txn_table (last extra) = []"
    and rev: "reverted (log (last states_r)) (buffer_pool (last extra)) (set (loser_lsns (last states_r)))"
    by blast
  have "\<forall>l \<in> set (loser_lsns (last states_r)).
        l < length (log (last states_r)) \<and> is_update (log (last states_r) ! l) \<and>
        js_key (entry_txn_id (log (last states_r) ! l)) \<in> fst ` set (txn_table (last states_r))"
    using loser_lsns_updates [OF r(2)] by blast
  with rev r(1) s show ?thesis
    unfolding reverted_def
    by (intro exI [of _ states_r] exI [of _ "states_r @ extra"]) simp
qed

text \<open>
  Claim C3 at \<open>loser_order_ops\<close>. After Analysis the losers are the transactions 1 and 2,
  the two left in the transaction table (Analysis rebuilds their entries from their
  updates, which sets no status); the log holds their updates of page \<open>A\<close> at LSN 9 (from
  the sentinel value to \<open>a\<close>) and at LSN 10 (from \<open>a\<close> to \<open>b\<close>), and no other entry of the
  log touches \<open>A\<close>.
  Undo takes LSN 9 before LSN 10 (the string order of \<open>losers.sort()\<close>), so the run ends
  with an empty transaction table and with page \<open>A\<close> holding \<open>a\<close> in the buffer pool: the
  value that the loser update at LSN 9 wrote, where the value before the losers' updates
  is the sentinel.
\<close>

theorem undo_completes_failing_input:
  "plain_ids loser_order_ops
   \<and> simulate loser_order_ops = Some (Inr (snapshots loser_order_ops))
   \<and> \<not> isl (run_to_analysis loser_order_ops)
   \<and> txn_table (last (projr (run_to_analysis loser_order_ops))) =
        [(''1'', \<lparr>txn_status = None, last_lsn = Some 9\<rparr>),
         (''2'', \<lparr>txn_status = None, last_lsn = Some 10\<rparr>)]
   \<and> map entry_page_id (log (last (projr (run_to_analysis loser_order_ops)))) =
        [Some ''B'', None, None, Some ''B'', None, None, Some ''B'', None, None, Some ''A'', Some ''A'']
   \<and> log (last (projr (run_to_analysis loser_order_ops))) ! 9 =
        Update 9 ''1'' ''A'' (Some bottom_value) ''a'' None
   \<and> log (last (projr (run_to_analysis loser_order_ops))) ! 10 =
        Update 10 ''2'' ''A'' (Some ''a'') ''b'' None
   \<and> phase (last (snapshots loser_order_ops)) = UNDO
   \<and> txn_table (last (snapshots loser_order_ops)) = []
   \<and> map_of (buffer_pool (last (snapshots loser_order_ops))) ''A'' =
        Some \<lparr>page_lsn = 13, page_value = Some ''a''\<rparr>"
  by code_simp

section \<open>Invariant violations\<close>

lemma analysis_loop_snaps:
  "\<exists>snaps s'. analysis_loop states s es = (states @ snaps, s') \<and> length snaps = length es"
proof (induction es arbitrary: states s)
  case Nil
  then show ?case by simp
next
  case (Cons e es)
  define s1 where "s1 = incr_log_position (analysis_entry s e)"
  from Cons.IH [of "states @ [s1]" s1] obtain snaps s' where
    "analysis_loop (states @ [s1]) s1 es = ((states @ [s1]) @ snaps, s')" "length snaps = length es"
    by blast
  then have "analysis_loop states s (e # es) = (states @ (s1 # snaps), s') \<and>
      length (s1 # snaps) = length (e # es)"
    by (simp add: s1_def Let_def)
  then show ?case by blast
qed

text \<open>
  Claim C8, as the code has it. The checks of the code are calls of \<open>console.assert\<close>,
  which reports a failed check and returns: nothing stops the run. A CLR met by Analysis
  or by Redo leaves the working state as it is, and Analysis never fails on any history,
  whatever its log holds: it pushes one snapshot for each entry from the latest checkpoint
  on and a last one. A run of \<open>aries.simulate\<close> does not stop either: for every sequence
  of operations the run returns, and what it returns is the whole history, the history up
  to the end of Redo followed by the snapshots of Undo, the last of them in phase \<open>UNDO\<close>
  with an empty transaction table.
\<close>

theorem violations_not_fatal:
  assumes "plain_ids os"
  shows "(\<exists>states_r extra. run_to_redo os = Inr states_r \<and> simulate os = Some (Inr (states_r @ extra))
       \<and> extra \<noteq> [] \<and> phase (last extra) = UNDO \<and> txn_table (last extra) = [])
   \<and> analysis_entry s (CLR l t p a u pl) = s \<and> redo_entry s (CLR l t p a u pl) = Inr s
   \<and> (states \<noteq> [] \<longrightarrow>
        (\<exists>snaps. analysis states = Inr (states @ snaps) \<and>
           length snaps = Suc (length (log (last states)) - latest_checkpoint_lsn (last states))))"
proof -
  from simulate_ok [of os] have
    "\<exists>states_r extra. run_to_redo os = Inr states_r \<and> simulate os = Some (Inr (states_r @ extra))
       \<and> extra \<noteq> [] \<and> phase (last extra) = UNDO \<and> txn_table (last extra) = []"
    by blast
  moreover have "states \<noteq> [] \<longrightarrow>
        (\<exists>snaps. analysis states = Inr (states @ snaps) \<and>
           length snaps = Suc (length (log (last states)) - latest_checkpoint_lsn (last states)))"
  proof
    assume ne: "states \<noteq> []"
    define s1 where "s1 = (last states)\<lparr>phase := ANALYSIS,
        log_position := Some (latest_checkpoint_lsn (last states))\<rparr>"
    from analysis_loop_snaps [of states s1 "drop (latest_checkpoint_lsn (last states)) (log s1)"]
    obtain snaps s' where
      "analysis_loop states s1 (drop (latest_checkpoint_lsn (last states)) (log s1)) = (states @ snaps, s')"
      "length snaps = length (drop (latest_checkpoint_lsn (last states)) (log s1))"
      by blast
    then have "analysis states = Inr (states @ (snaps @ [s'\<lparr>txn_table := mark_aborted (txn_table s')\<rparr>])) \<and>
        length (snaps @ [s'\<lparr>txn_table := mark_aborted (txn_table s')\<rparr>]) =
          Suc (length (log (last states)) - latest_checkpoint_lsn (last states))"
      using ne by (simp add: analysis_def Let_def s1_def)
    then show "\<exists>snaps. analysis states = Inr (states @ snaps) \<and>
           length snaps = Suc (length (log (last states)) - latest_checkpoint_lsn (last states))"
      by blast
  qed
  ultimately show ?thesis
    by (simp add: analysis_clr_def)
qed

theorem violations_not_fatal_witness:
  "plain_ids clr_ops \<and> [flush_example] \<noteq> []
   \<and> (\<exists>snaps. analysis [flush_example] = Inr ([flush_example] @ snaps) \<and> length snaps = 2)
   \<and> (\<exists>states_r extra. run_to_redo clr_ops = Inr states_r \<and>
          simulate clr_ops = Some (Inr (states_r @ extra)) \<and> extra \<noteq> [] \<and>
          phase (last extra) = UNDO \<and> txn_table (last extra) = [])"
proof -
  have plain: "plain_ids clr_ops"
    by code_simp
  have "latest_checkpoint_lsn (last [flush_example]) = 0" "length (log (last [flush_example])) = 1"
    by (simp_all add: flush_example_def latest_checkpoint_lsn_def)
  with violations_not_fatal [OF plain, of flush_example 0 None None JUndefined JUndefined None
      "[flush_example]"] plain
  show ?thesis by (simp add: numeral_2_eq_2)
qed

text \<open>
  The claim as stated fails on the history that \<open>aries.simulate\<close> returns for
  \<open>clr_ops\<close>, whose log holds a CLR at LSN 2: Analysis of that log starts at LSN 0, scans
  all five entries, the CLR among them, and returns with six more snapshots.
\<close>

theorem analysis_clr_counterexample:
  "simulate clr_ops = Some (Inr (snapshots clr_ops))
   \<and> log (last (snapshots clr_ops)) ! 2 =
        CLR 2 (Some ''1'') (Some ''A'') (JNum 0) (JStr ''a'') (Some 1)
   \<and> latest_checkpoint_lsn (last (snapshots clr_ops)) = 0
   \<and> \<not> isl (analysis (snapshots clr_ops))
   \<and> length (projr (analysis (snapshots clr_ops))) = length (snapshots clr_ops) + 6
   \<and> take (length (snapshots clr_ops)) (projr (analysis (snapshots clr_ops))) = snapshots clr_ops"
  by code_simp

end
